theory Spec2Isabelle
  imports Main "HOL-Library.Word"
begin

section \<open>Data model of hashset.h\<close>

text \<open>
  \<^verbatim>\<open>size_t\<close> is an unsigned machine word, here of 64 bits; the hash of an element, the
  bucket count and the bucket index of an iterator are of this type, and \<^verbatim>\<open>%\<close> is the
  unsigned remainder. A pointer to a chain node is an address (\<open>Some a\<close>) or \<^verbatim>\<open>NULL\<close>
  (\<open>None\<close>). An element reference (\<^verbatim>\<open>void*\<close>) is a value of the type parameter \<open>'e\<close>: it
  stands for a non-\<^verbatim>\<open>NULL\<close> reference to an object of the caller, which the table never
  reads but through the two callbacks. \<^verbatim>\<open>HashSetGet\<close> and \<^verbatim>\<open>HashSetIteratorNext\<close> return
  \<^verbatim>\<open>NULL\<close> for "no element": their results are of type \<open>'e option\<close>, with \<open>None\<close> for
  \<^verbatim>\<open>NULL\<close>. The bucket array is the list \<open>elements\<close>; the iterator's pointer to its table
  is the table passed to \<^verbatim>\<open>HashSetIteratorNext\<close>. \<^verbatim>\<open>HashSetDelete\<close> is not modelled.
\<close>

type_synonym size_t = "64 word"

type_synonym addr = nat

datatype fault = DivideByZero | BadPointer | OutOfBounds

record 'e HashSetElements =
  element :: 'e
  nxt :: "addr option"

record 'e HashSet =
  count :: size_t
  elements :: "addr option list"
  hasher :: "'e \<Rightarrow> size_t"
  comparator :: "'e \<Rightarrow> 'e \<Rightarrow> int"

record HashSetIterator =
  bucket :: size_t
  element_it :: "addr option"

subsection \<open>The store of chain nodes\<close>

text \<open>
  Chain nodes live in a store indexed by address; a cell is \<open>None\<close> when the address is
  not allocated (never allocated, or freed). Reading or writing through such an address is
  the fault \<open>BadPointer\<close>. \<^verbatim>\<open>malloc\<close> followed by the initialisation of the two fields of
  the new node is \<open>new_node\<close>: it never fails and returns an address that was never used
  before. \<^verbatim>\<open>free\<close> marks the cell as not allocated.
\<close>

type_synonym 'e heap = "'e HashSetElements option list"

definition load :: "'e heap \<Rightarrow> addr \<Rightarrow> 'e HashSetElements option" where
  "load h a = (if a < length h then h ! a else None)"

definition store :: "'e heap \<Rightarrow> addr \<Rightarrow> 'e HashSetElements \<Rightarrow> 'e heap" where
  "store h a n = h[a := Some n]"

definition new_node :: "'e heap \<Rightarrow> 'e \<Rightarrow> addr \<times> 'e heap" where
  "new_node h e = (length h, h @ [Some \<lparr>element = e, nxt = None\<rparr>])"

definition free :: "'e heap \<Rightarrow> addr \<Rightarrow> 'e heap" where
  "free h a = h[a := None]"

section \<open>The operations of hashset.c\<close>

text \<open>
  An operation that walks a chain takes the table and the store and returns a value of
  type \<open>(fault + 'a) option\<close>: \<open>None\<close> when the walk never ends, \<open>Some (Inl f)\<close> when
  the C code has undefined behaviour (remainder by a zero count, a read outside the bucket
  array, a dangling node pointer), \<open>Some (Inr r)\<close> when it returns. A \<^verbatim>\<open>while\<close> loop is a
  recursive function on the variables of the loop. The loop of \<^verbatim>\<open>HashSetIteratorNext\<close>
  ends after at most \<^verbatim>\<open>count\<close> rounds on any store, so this operation is a total function
  into \<open>fault + 'a\<close>.
\<close>

definition HashSetNew :: "size_t \<Rightarrow> ('e \<Rightarrow> size_t) \<Rightarrow> ('e \<Rightarrow> 'e \<Rightarrow> int) \<Rightarrow> 'e HashSet" where
  "HashSetNew n hasher' comparator' =
     \<lparr>count = n, elements = replicate (unat n) None, hasher = hasher', comparator = comparator'\<rparr>"

partial_function (option) HashSetAdd_loop ::
  "('e \<Rightarrow> 'e \<Rightarrow> int) \<Rightarrow> 'e \<Rightarrow> 'e heap \<Rightarrow> addr option \<Rightarrow> (fault + 'e heap) option" where
  "HashSetAdd_loop cmp e h es =
     (case es of
        None \<Rightarrow> Some (Inr h)
      | Some a \<Rightarrow>
          (case load h a of
             None \<Rightarrow> Some (Inl BadPointer)
           | Some n \<Rightarrow>
               if cmp (element n) e = 0 then Some (Inr (store h a (n\<lparr>element := e\<rparr>)))
               else if nxt n = None then
                 (let (b, h') = new_node h e in Some (Inr (store h' a (n\<lparr>nxt := Some b\<rparr>))))
               else HashSetAdd_loop cmp e h (nxt n)))"

definition HashSetAdd ::
  "'e HashSet \<Rightarrow> 'e heap \<Rightarrow> 'e \<Rightarrow> (fault + 'e HashSet \<times> 'e heap) option" where
  "HashSetAdd hs h e =
     (if count hs = 0 then Some (Inl DivideByZero)
      else
        let hash = unat (hasher hs e mod count hs) in
        if length (elements hs) \<le> hash then Some (Inl OutOfBounds)
        else
          (case elements hs ! hash of
             None \<Rightarrow>
               (let (b, h') = new_node h e
                in Some (Inr (hs\<lparr>elements := (elements hs)[hash := Some b]\<rparr>, h')))
           | Some a \<Rightarrow>
               (case HashSetAdd_loop (comparator hs) e h (Some a) of
                  None \<Rightarrow> None
                | Some (Inl f) \<Rightarrow> Some (Inl f)
                | Some (Inr h') \<Rightarrow> Some (Inr (hs, h')))))"

partial_function (option) HashSetGet_loop ::
  "('e \<Rightarrow> 'e \<Rightarrow> int) \<Rightarrow> 'e \<Rightarrow> 'e heap \<Rightarrow> addr option \<Rightarrow> (fault + 'e option) option" where
  "HashSetGet_loop cmp e h es =
     (case es of
        None \<Rightarrow> Some (Inr None)
      | Some a \<Rightarrow>
          (case load h a of
             None \<Rightarrow> Some (Inl BadPointer)
           | Some n \<Rightarrow>
               if cmp (element n) e = 0 then Some (Inr (Some (element n)))
               else HashSetGet_loop cmp e h (nxt n)))"

definition HashSetGet :: "'e HashSet \<Rightarrow> 'e heap \<Rightarrow> 'e \<Rightarrow> (fault + 'e option) option" where
  "HashSetGet hs h e =
     (if count hs = 0 then Some (Inl DivideByZero)
      else
        let hash = unat (hasher hs e mod count hs) in
        if length (elements hs) \<le> hash then Some (Inl OutOfBounds)
        else HashSetGet_loop (comparator hs) e h (elements hs ! hash))"

definition HashSetContains :: "'e HashSet \<Rightarrow> 'e heap \<Rightarrow> 'e \<Rightarrow> (fault + bool) option" where
  "HashSetContains hs h e =
     (case HashSetGet hs h e of
        None \<Rightarrow> None
      | Some (Inl f) \<Rightarrow> Some (Inl f)
      | Some (Inr r) \<Rightarrow> Some (Inr (r \<noteq> None)))"

partial_function (option) HashSetRemove_loop ::
  "'e HashSet \<Rightarrow> 'e heap \<Rightarrow> 'e \<Rightarrow> nat \<Rightarrow> addr option \<Rightarrow> addr option \<Rightarrow>
     (fault + 'e HashSet \<times> 'e heap) option" where
  "HashSetRemove_loop hs h e hash es previous =
     (case es of
        None \<Rightarrow> Some (Inr (hs, h))
      | Some a \<Rightarrow>
          (case load h a of
             None \<Rightarrow> Some (Inl BadPointer)
           | Some n \<Rightarrow>
               if comparator hs (element n) e = 0 then
                 (case previous of
                    Some p \<Rightarrow>
                      (case load h p of
                         None \<Rightarrow> Some (Inl BadPointer)
                       | Some pn \<Rightarrow> Some (Inr (hs, free (store h p (pn\<lparr>nxt := nxt n\<rparr>)) a)))
                  | None \<Rightarrow>
                      Some (Inr (hs\<lparr>elements := (elements hs)[hash := nxt n]\<rparr>, free h a)))
               else HashSetRemove_loop hs h e hash (nxt n) (Some a)))"

definition HashSetRemove ::
  "'e HashSet \<Rightarrow> 'e heap \<Rightarrow> 'e \<Rightarrow> (fault + 'e HashSet \<times> 'e heap) option" where
  "HashSetRemove hs h e =
     (if count hs = 0 then Some (Inl DivideByZero)
      else
        let hash = unat (hasher hs e mod count hs) in
        if length (elements hs) \<le> hash then Some (Inl OutOfBounds)
        else HashSetRemove_loop hs h e hash (elements hs ! hash) None)"

definition HashSetIteratorNew :: "'e HashSet \<Rightarrow> fault + HashSetIterator" where
  "HashSetIteratorNew hs =
     (case elements hs of
        [] \<Rightarrow> Inl OutOfBounds
      | p # _ \<Rightarrow> Inr \<lparr>bucket = 0, element_it = p\<rparr>)"

function HashSetIteratorNext ::
  "'e HashSet \<Rightarrow> 'e heap \<Rightarrow> HashSetIterator \<Rightarrow> fault + 'e option \<times> HashSetIterator" where
  "HashSetIteratorNext hs h i =
     (if bucket i < count hs then
        (case element_it i of
           Some a \<Rightarrow>
             (case load h a of
                None \<Rightarrow> Inl BadPointer
              | Some n \<Rightarrow> Inr (Some (element n), i\<lparr>element_it := nxt n\<rparr>))
         | None \<Rightarrow>
             if bucket i + 1 = count hs then Inr (None, i\<lparr>bucket := bucket i + 1\<rparr>)
             else if length (elements hs) \<le> unat (bucket i + 1) then Inl OutOfBounds
             else HashSetIteratorNext hs h
                    (i\<lparr>bucket := bucket i + 1, element_it := elements hs ! unat (bucket i + 1)\<rparr>))
      else Inr (None, i))"
  by pat_completeness auto

termination
proof (relation "measure (\<lambda>(hs, h, i). unat (count hs) - unat (bucket i))")
  show "wf (measure (\<lambda>(hs, h, i). unat (count hs) - unat (bucket i)))"
    by simp
next
  fix hs :: "'e HashSet" and h :: "'e heap" and i :: HashSetIterator
  assume lt: "bucket i < count hs"
  then have "unat (bucket i) < unat (count hs)"
    by (simp add: word_less_nat_alt)
  moreover have "1 + bucket i \<noteq> 0"
  proof
    assume "1 + bucket i = 0"
    then have "bucket i = - 1"
      by (simp add: eq_neg_iff_add_eq_0 add.commute)
    with lt show False
      by (simp add: not_less)
  qed
  then have "unat (bucket i + 1) = Suc (unat (bucket i))"
    by (simp add: unatSuc add.commute)
  ultimately show
    "((hs, h, i\<lparr>bucket := bucket i + 1, element_it := elements hs ! unat (bucket i + 1)\<rparr>),
      (hs, h, i)) \<in> measure (\<lambda>(hs, h, i). unat (count hs) - unat (bucket i))"
    by simp
qed

declare HashSetIteratorNext.simps [simp del]

subsection \<open>The loops of the callers (test.c)\<close>

text \<open>
  The tests drain an iterator with \<^verbatim>\<open>while ((item = HashSetIteratorNext(&it))) { ... }\<close>:
  \<open>iterate_all\<close> is that loop, collecting the elements it sees in order, and returns them
  with the iterator as the last call left it. The tests fill a table with a \<^verbatim>\<open>for\<close> loop of
  \<^verbatim>\<open>HashSetAdd\<close> calls: \<open>HashSetAdd_all\<close> adds the elements of a list in order.
\<close>

partial_function (option) iterate_all ::
  "'e HashSet \<Rightarrow> 'e heap \<Rightarrow> HashSetIterator \<Rightarrow> 'e list \<Rightarrow>
     (fault + 'e list \<times> HashSetIterator) option" where
  "iterate_all hs h i seen =
     (case HashSetIteratorNext hs h i of
        Inl f \<Rightarrow> Some (Inl f)
      | Inr (None, i') \<Rightarrow> Some (Inr (seen, i'))
      | Inr (Some x, i') \<Rightarrow> iterate_all hs h i' (seen @ [x]))"

fun HashSetAdd_all ::
  "'e HashSet \<Rightarrow> 'e heap \<Rightarrow> 'e list \<Rightarrow> (fault + 'e HashSet \<times> 'e heap) option" where
  "HashSetAdd_all hs h [] = Some (Inr (hs, h))"
| "HashSetAdd_all hs h (e # es) =
     (case HashSetAdd hs h e of
        None \<Rightarrow> None
      | Some (Inl f) \<Rightarrow> Some (Inl f)
      | Some (Inr (hs', h')) \<Rightarrow> HashSetAdd_all hs' h' es)"

text \<open>
  The sparse array example of test.c: an \<^verbatim>\<open>Item\<close> has the key \<^verbatim>\<open>index\<close> and the value
  \<^verbatim>\<open>word\<close>; \<^verbatim>\<open>ItemHash\<close> and \<^verbatim>\<open>ItemCompare\<close> read the key only.
\<close>

record Item =
  index :: size_t
  word :: string

definition ItemHash :: "Item \<Rightarrow> size_t" where
  "ItemHash item = index item"

definition ItemCompare :: "Item \<Rightarrow> Item \<Rightarrow> int" where
  "ItemCompare a b = (if index a < index b then - 1 else if index a > index b then 1 else 0)"

section \<open>Chains and tables as lists\<close>

text \<open>
  \<open>path h p cs q\<close>: following \<^verbatim>\<open>next\<close> pointers in the store \<open>h\<close> from \<open>p\<close> visits exactly
  the allocated nodes \<open>cs\<close>, each given as its address and the element it holds, and arrives
  at \<open>q\<close>. A chain is a path that ends in \<^verbatim>\<open>NULL\<close>: it is finite, and acyclic
  (lemma \<open>chain_distinct\<close>).
\<close>

primrec path :: "'e heap \<Rightarrow> addr option \<Rightarrow> (addr \<times> 'e) list \<Rightarrow> addr option \<Rightarrow> bool" where
  "path h p [] q = (p = q)"
| "path h p (c # cs) q =
     (p = Some (fst c) \<and>
      (case load h (fst c) of
         None \<Rightarrow> False
       | Some n \<Rightarrow> element n = snd c \<and> path h (nxt n) cs q))"

definition chain :: "'e heap \<Rightarrow> addr option \<Rightarrow> (addr \<times> 'e) list \<Rightarrow> bool" where
  "chain h p cs = path h p cs None"

text \<open>
  \<open>bucket_chains hs h bs\<close>: the bucket array has \<^verbatim>\<open>count\<close> slots and bucket \<open>j\<close> heads the chain
  \<open>bs ! j\<close>. A \<open>table\<close> has, moreover, no node in two chains; every table that
  \<^verbatim>\<open>HashSetNew\<close>, \<^verbatim>\<open>HashSetAdd\<close> and \<^verbatim>\<open>HashSetRemove\<close> build is one
  (lemmas \<open>table_HashSetNew\<close>, \<open>HashSetAdd_table\<close>, \<open>HashSetRemove_table\<close>).
  \<open>bucket_of hs e\<close> is the index \<^verbatim>\<open>hasher(element) % count\<close>.
\<close>

definition bucket_of :: "'e HashSet \<Rightarrow> 'e \<Rightarrow> nat" where
  "bucket_of hs e = unat (hasher hs e mod count hs)"

definition bucket_chains :: "'e HashSet \<Rightarrow> 'e heap \<Rightarrow> (addr \<times> 'e) list list \<Rightarrow> bool" where
  "bucket_chains hs h bs \<longleftrightarrow>
     length (elements hs) = unat (count hs) \<and> list_all2 (chain h) (elements hs) bs"

definition table :: "'e HashSet \<Rightarrow> 'e heap \<Rightarrow> (addr \<times> 'e) list list \<Rightarrow> bool" where
  "table hs h bs \<longleftrightarrow> bucket_chains hs h bs \<and> distinct (map fst (concat bs))"

text \<open>
  What the walks do to a chain, on the list of its nodes: \<open>first_match\<close> is the position of
  the first node whose element compares equal to \<open>e\<close> (the length of the chain when there is
  none), \<open>add_chain\<close> replaces the element of that node or appends a node at address \<open>b\<close>,
  \<open>remove_chain\<close> drops that node.
\<close>

fun first_match :: "('e \<Rightarrow> 'e \<Rightarrow> int) \<Rightarrow> 'e \<Rightarrow> (addr \<times> 'e) list \<Rightarrow> nat" where
  "first_match cmp e [] = 0"
| "first_match cmp e (c # cs) = (if cmp (snd c) e = 0 then 0 else Suc (first_match cmp e cs))"

fun add_chain :: "('e \<Rightarrow> 'e \<Rightarrow> int) \<Rightarrow> 'e \<Rightarrow> addr \<Rightarrow> (addr \<times> 'e) list \<Rightarrow> (addr \<times> 'e) list" where
  "add_chain cmp e b [] = [(b, e)]"
| "add_chain cmp e b (c # cs) =
     (if cmp (snd c) e = 0 then (fst c, e) # cs else c # add_chain cmp e b cs)"

fun remove_chain :: "('e \<Rightarrow> 'e \<Rightarrow> int) \<Rightarrow> 'e \<Rightarrow> (addr \<times> 'e) list \<Rightarrow> (addr \<times> 'e) list" where
  "remove_chain cmp e [] = []"
| "remove_chain cmp e (c # cs) = (if cmp (snd c) e = 0 then cs else c # remove_chain cmp e cs)"

text \<open>
  \<open>same_outside i hs h bs hs' h'\<close>: from \<open>(hs, h)\<close> to \<open>(hs', h')\<close> nothing but bucket \<open>i\<close>
  changed: the count, the callbacks, and for every other bucket its head, its chain and
  the cells of its nodes are the same.
\<close>

definition same_outside ::
  "nat \<Rightarrow> 'e HashSet \<Rightarrow> 'e heap \<Rightarrow> (addr \<times> 'e) list list \<Rightarrow> 'e HashSet \<Rightarrow> 'e heap \<Rightarrow> bool" where
  "same_outside i hs h bs hs' h' \<longleftrightarrow>
     count hs' = count hs \<and> hasher hs' = hasher hs \<and> comparator hs' = comparator hs \<and>
     length (elements hs') = length (elements hs) \<and>
     (\<forall>j<length bs. j \<noteq> i \<longrightarrow>
        elements hs' ! j = elements hs ! j \<and> chain h' (elements hs' ! j) (bs ! j) \<and>
        (\<forall>c\<in>set (bs ! j). load h' (fst c) = load h (fst c)))"

text \<open>
  An iterator is positioned in a table when its bucket index is in range and its cursor
  heads a chain \<open>cs\<close>; what it has still to yield is then \<open>cs\<close> and the chains of
  the buckets after its own.
\<close>

definition iter_at ::
  "'e HashSet \<Rightarrow> 'e heap \<Rightarrow> (addr \<times> 'e) list list \<Rightarrow> HashSetIterator \<Rightarrow> (addr \<times> 'e) list \<Rightarrow> bool" where
  "iter_at hs h bs i cs \<longleftrightarrow>
     bucket_chains hs h bs \<and> unat (bucket i) < length bs \<and> chain h (element_it i) cs"

definition remaining :: "(addr \<times> 'e) list list \<Rightarrow> HashSetIterator \<Rightarrow> (addr \<times> 'e) list \<Rightarrow> 'e list" where
  "remaining bs i cs = map snd (cs @ concat (drop (Suc (unat (bucket i))) bs))"

text \<open>
  The contract of the callbacks (hashset.h): both read the key part of an element only.
  \<open>keyed key hs\<close>: the comparator returns 0 exactly on elements with the same key, and
  elements with the same key have the same hash. \<open>placed\<close>: every element is in the chain
  of the bucket its hash selects. \<open>unique_keys\<close>: no chain holds two elements with the
  same key. The three hold of every table built by the operations (lemmas
  \<open>keyed_table_HashSetNew\<close>, \<open>HashSetAdd_keyed_table\<close>, \<open>HashSetRemove_keyed_table\<close>).
\<close>

definition keyed :: "('e \<Rightarrow> 'k) \<Rightarrow> 'e HashSet \<Rightarrow> bool" where
  "keyed key hs \<longleftrightarrow>
     (\<forall>a b. (comparator hs a b = 0) = (key a = key b)) \<and>
     (\<forall>a b. key a = key b \<longrightarrow> hasher hs a = hasher hs b)"

definition placed :: "'e HashSet \<Rightarrow> (addr \<times> 'e) list list \<Rightarrow> bool" where
  "placed hs bs \<longleftrightarrow>
     list_all2 (\<lambda>j cs. \<forall>c\<in>set cs. bucket_of hs (snd c) = j) [0..<length bs] bs"

definition unique_keys :: "('e \<Rightarrow> 'k) \<Rightarrow> (addr \<times> 'e) list list \<Rightarrow> bool" where
  "unique_keys key bs \<longleftrightarrow> (\<forall>cs\<in>set bs. distinct (map (\<lambda>c. key (snd c)) cs))"

definition keyed_table ::
  "('e \<Rightarrow> 'k) \<Rightarrow> 'e HashSet \<Rightarrow> 'e heap \<Rightarrow> (addr \<times> 'e) list list \<Rightarrow> bool" where
  "keyed_table key hs h bs \<longleftrightarrow>
     count hs \<noteq> 0 \<and> keyed key hs \<and> table hs h bs \<and> placed hs bs \<and> unique_keys key bs"

text \<open>
  A table for the examples: two buckets, the items of \<^verbatim>\<open>TestAddUpdates\<close> added in the order
  1, 273, 6000. The first two share bucket 1.
\<close>

definition example_set :: "Item HashSet" where
  "example_set =
     \<lparr>count = 2, elements = [Some 2, Some 0], hasher = ItemHash, comparator = ItemCompare\<rparr>"

definition example_heap :: "Item heap" where
  "example_heap =
     [Some \<lparr>element = \<lparr>index = 1, word = ''hello''\<rparr>, nxt = Some 1\<rparr>,
      Some \<lparr>element = \<lparr>index = 273, word = ''world''\<rparr>, nxt = None\<rparr>,
      Some \<lparr>element = \<lparr>index = 6000, word = ''wow''\<rparr>, nxt = None\<rparr>]"

definition example_chains :: "(addr \<times> Item) list list" where
  "example_chains =
     [[(2, \<lparr>index = 6000, word = ''wow''\<rparr>)],
      [(0, \<lparr>index = 1, word = ''hello''\<rparr>), (1, \<lparr>index = 273, word = ''world''\<rparr>)]]"

text \<open>\<open>HashSetIteratorNext_times hs h n i\<close> calls \<^verbatim>\<open>HashSetIteratorNext\<close> \<open>n\<close> times in a row and
  lists what the calls returned.\<close>

fun HashSetIteratorNext_times ::
  "'e HashSet \<Rightarrow> 'e heap \<Rightarrow> nat \<Rightarrow> HashSetIterator \<Rightarrow> fault + 'e option list \<times> HashSetIterator" where
  "HashSetIteratorNext_times hs h 0 i = Inr ([], i)"
| "HashSetIteratorNext_times hs h (Suc n) i =
     (case HashSetIteratorNext hs h i of
        Inl f \<Rightarrow> Inl f
      | Inr (r, i') \<Rightarrow>
          (case HashSetIteratorNext_times hs h n i' of
             Inl f \<Rightarrow> Inl f
           | Inr (rs, i'') \<Rightarrow> Inr (r # rs, i'')))"

section \<open>Reading and writing the store\<close>

lemma load_store: "load (store h a n) b = (if b = a \<and> a < length h then Some n else load h b)"
  by (simp add: load_def store_def)

lemma load_free: "load (free h a) b = (if b = a then None else load h b)"
  by (auto simp add: load_def free_def)

lemma load_new_node:
  "load (snd (new_node h e)) b =
     (if b = length h then Some \<lparr>element = e, nxt = None\<rparr> else load h b)"
  by (auto simp add: load_def new_node_def nth_append)

lemma load_fresh: "load h (length h) = None"
  by (simp add: load_def)

lemma load_Some_less: "load h a = Some n \<Longrightarrow> a < length h"
  by (simp add: load_def split: if_splits)

lemma length_store [simp]: "length (store h a n) = length h"
  by (simp add: store_def)

lemma length_free [simp]: "length (free h a) = length h"
  by (simp add: free_def)

lemma length_new_node [simp]: "length (snd (new_node h e)) = Suc (length h)"
  by (simp add: new_node_def)

section \<open>Paths and chains\<close>

lemma path_None [simp]: "path h None cs q = (cs = [] \<and> q = None)"
  by (cases cs) auto

lemma path_append: "path h p (cs @ ds) q = (\<exists>m. path h p cs m \<and> path h m ds q)"
  by (induction cs arbitrary: p) (auto split: option.splits)

lemma path_live: "path h p cs q \<Longrightarrow> c \<in> set cs \<Longrightarrow> \<exists>n. load h (fst c) = Some n \<and> element n = snd c"
  by (induction cs arbitrary: p) (auto split: option.splits)

lemma path_cong:
  "path h p cs q \<Longrightarrow> (\<And>a. a \<in> fst ` set cs \<Longrightarrow> load h' a = load h a) \<Longrightarrow> path h' p cs q"
proof (induction cs arbitrary: p)
  case Nil
  then show ?case by simp
next
  case (Cons c cs)
  then show ?case by (auto split: option.splits)
qed

lemma path_functional:
  "path h p cs None \<Longrightarrow> path h p ds None \<Longrightarrow> cs = ds"
proof (induction cs arbitrary: p ds)
  case Nil
  then show ?case by (cases ds) auto
next
  case (Cons c cs)
  then show ?case by (cases ds) (auto split: option.splits simp: prod_eq_iff)
qed

lemma chain_distinct:
  assumes "path h p cs None" shows "distinct (map fst cs)"
  using assms
proof (induction cs arbitrary: p)
  case Nil
  then show ?case by simp
next
  case (Cons c cs)
  from Cons.prems obtain n where n: "p = Some (fst c)" "load h (fst c) = Some n"
      "element n = snd c" "path h (nxt n) cs None"
    by (auto split: option.splits)
  have "fst c \<notin> fst ` set cs"
  proof
    assume "fst c \<in> fst ` set cs"
    then obtain d where d: "d \<in> set cs" "fst d = fst c" by auto
    then obtain us vs where split: "cs = us @ d # vs"
      by (auto simp: in_set_conv_decomp)
    with n(4) have "path h (Some (fst d)) (d # vs) None"
      by (auto simp: path_append)
    with d(2) Cons.prems n(1) have "d # vs = c # cs"
      using path_functional by metis
    with split show False by simp
  qed
  with Cons.IH[OF n(4)] show ?case by simp
qed

lemma chain_addr_less: "chain h p cs \<Longrightarrow> a \<in> fst ` set cs \<Longrightarrow> a < length h"
  unfolding chain_def by (auto dest!: path_live dest: load_Some_less)

lemma chain_replace:
  "chain h p cs \<Longrightarrow> k < length cs \<Longrightarrow> load h (fst (cs ! k)) = Some n \<Longrightarrow>
   chain (store h (fst (cs ! k)) (n\<lparr>element := e\<rparr>)) p (cs[k := (fst (cs ! k), e)])"
proof (induction cs arbitrary: p k)
  case Nil
  then show ?case by simp
next
  case (Cons c cs)
  from Cons.prems(1) have dist: "distinct (map fst (c # cs))"
    unfolding chain_def by (rule chain_distinct)
  from Cons.prems(1) obtain m where m: "p = Some (fst c)" "load h (fst c) = Some m"
      "element m = snd c" "chain h (nxt m) cs"
    by (auto simp: chain_def split: option.splits)
  show ?case
  proof (cases k)
    case 0
    have "path (store h (fst c) (n\<lparr>element := e\<rparr>)) (nxt m) cs None"
      by (rule path_cong[OF m(4)[unfolded chain_def]]) (use dist in \<open>auto simp: load_store image_iff\<close>)
    with 0 m Cons.prems(3) show ?thesis
      by (auto simp: chain_def load_store dest: load_Some_less)
  next
    case (Suc j)
    with Cons.prems have j: "j < length cs" "load h (fst (cs ! j)) = Some n"
      by auto
    from dist j(1) have "fst (cs ! j) \<noteq> fst c"
      by (metis distinct.simps(2) list.simps(9) nth_map nth_mem length_map)
    with Suc m Cons.IH[OF m(4) j] show ?thesis
      by (auto simp: chain_def load_store)
  qed
qed

lemma chain_append_node:
  "chain h p cs \<Longrightarrow> cs \<noteq> [] \<Longrightarrow> load h (fst (last cs)) = Some n \<Longrightarrow>
   chain (store (snd (new_node h e)) (fst (last cs)) (n\<lparr>nxt := Some (length h)\<rparr>)) p
     (cs @ [(length h, e)])"
proof (induction cs arbitrary: p)
  case Nil
  then show ?case by simp
next
  case (Cons c cs)
  let ?h' = "store (snd (new_node h e)) (fst (last (c # cs))) (n\<lparr>nxt := Some (length h)\<rparr>)"
  from Cons.prems(1) have dist: "distinct (map fst (c # cs))"
    unfolding chain_def by (rule chain_distinct)
  from Cons.prems(1) obtain m where m: "p = Some (fst c)" "load h (fst c) = Some m"
      "element m = snd c" "chain h (nxt m) cs"
    by (auto simp: chain_def split: option.splits)
  have len: "length (snd (new_node h e)) = Suc (length h)"
    by (simp add: new_node_def)
  show ?case
  proof (cases cs)
    case Nil
    with m Cons.prems(3) show ?thesis
      by (auto simp: chain_def load_store load_new_node len dest: load_Some_less)
  next
    case (Cons d ds)
    with dist have "fst (last cs) \<noteq> fst c"
      by (metis distinct.simps(2) image_eqI last_in_set list.discI list.simps(9) set_map)
    moreover have "fst c < length h"
      using m(2) by (rule load_Some_less)
    moreover from Cons Cons.prems(3) have "load h (fst (last cs)) = Some n"
      by simp
    from Cons.IH[OF m(4) _ this] Cons have "chain ?h' (nxt m) (cs @ [(length h, e)])"
      by simp
    ultimately show ?thesis using m
      by (auto simp: chain_def load_store load_new_node len)
  qed
qed

section \<open>The walks on one chain\<close>

lemma first_match_le: "first_match cmp e cs \<le> length cs"
  by (induction cs) auto

lemma first_match_length: "(first_match cmp e cs = length cs) = (\<forall>c\<in>set cs. cmp (snd c) e \<noteq> 0)"
proof (induction cs)
  case (Cons c cs)
  then show ?case using first_match_le[of cmp e cs] by auto
qed simp

lemma first_match_hit: "first_match cmp e cs < length cs \<Longrightarrow> cmp (snd (cs ! first_match cmp e cs)) e = 0"
  by (induction cs) (auto split: if_splits)

lemma first_match_before: "j < first_match cmp e cs \<Longrightarrow> cmp (snd (cs ! j)) e \<noteq> 0"
  by (induction cs arbitrary: j) (auto split: if_splits simp: nth_Cons')

lemma nomatch_iff:
  "(\<not> first_match cmp e cs < length cs) = (\<forall>c\<in>set cs. cmp (snd c) e \<noteq> 0)"
  using first_match_le[of cmp e cs] by (simp add: first_match_length[symmetric])

lemma add_chain_eq:
  "add_chain cmp e b cs =
     (if first_match cmp e cs < length cs
      then cs[first_match cmp e cs := (fst (cs ! first_match cmp e cs), e)]
      else cs @ [(b, e)])"
  by (induction cs) auto

lemma add_chain_fst:
  "fst ` set (add_chain cmp e b cs) \<subseteq> insert b (fst ` set cs)"
  by (induction cs) auto

lemma add_chain_snd:
  "snd ` set (add_chain cmp e b cs) \<subseteq> insert e (snd ` set cs)"
  by (induction cs) auto

lemma add_chain_keys:
  assumes "\<And>a. (cmp a e = 0) = (key a = key e)"
  shows "map (\<lambda>c. key (snd c)) (add_chain cmp e b cs) =
           (if key e \<in> (\<lambda>c. key (snd c)) ` set cs then map (\<lambda>c. key (snd c)) cs
            else map (\<lambda>c. key (snd c)) cs @ [key e])"
  by (induction cs) (auto simp: assms)

lemma find_add_chain:
  assumes "\<And>a b. (cmp a b = 0) = (key a = key b)"
  shows "find (\<lambda>x. cmp x p = 0) (map snd (add_chain cmp e b cs)) =
           (if key e = key p then Some e else find (\<lambda>x. cmp x p = 0) (map snd cs))"
  by (induction cs) (auto simp: assms)

lemma remove_chain_eq:
  "remove_chain cmp e cs = take (first_match cmp e cs) cs @ drop (Suc (first_match cmp e cs)) cs"
  by (induction cs) auto

lemma remove_chain_nomatch:
  "\<forall>c\<in>set cs. cmp (snd c) e \<noteq> 0 \<Longrightarrow> remove_chain cmp e cs = cs"
  by (induction cs) auto

lemma remove_chain_subset: "set (remove_chain cmp e cs) \<subseteq> set cs"
  by (induction cs) auto

lemma remove_chain_distinct:
  "distinct (map f cs) \<Longrightarrow> distinct (map f (remove_chain cmp e cs))"
  using remove_chain_subset[of cmp e] by (induction cs) (auto simp: subset_iff image_iff)

lemma remove_chain_key_gone:
  assumes "\<And>a. (cmp a e = 0) = (key a = key e)" "distinct (map (\<lambda>c. key (snd c)) cs)"
  shows "key e \<notin> (\<lambda>c. key (snd c)) ` set (remove_chain cmp e cs)"
  using assms(2) by (induction cs) (auto simp: assms(1) image_iff)

lemma find_distinct_key:
  "distinct (map f xs) \<Longrightarrow> x \<in> set xs \<Longrightarrow> find (\<lambda>y. f y = f x) xs = Some x"
  by (induction xs) (auto simp: image_iff)

lemma HashSetGet_loop_chain:
  "chain h p cs \<Longrightarrow>
   HashSetGet_loop cmp e h p = Some (Inr (find (\<lambda>x. cmp x e = 0) (map snd cs)))"
proof (induction cs arbitrary: p)
  case Nil
  then show ?case by (subst HashSetGet_loop.simps) (simp add: chain_def)
next
  case (Cons c cs)
  then show ?case
    by (subst HashSetGet_loop.simps) (auto simp: chain_def split: option.splits)
qed

text \<open>
  On a node that is its own successor the walk of \<^verbatim>\<open>HashSetGet\<close> never returns when the
  element does not match: without finite chains the operations need not terminate.
\<close>

lemma HashSetGet_loop_cycle:
  assumes "load h a = Some n" "nxt n = Some a" "cmp (element n) e \<noteq> 0"
  shows "HashSetGet_loop cmp e h (Some a) = None"
proof (rule ccontr)
  assume "HashSetGet_loop cmp e h (Some a) \<noteq> None"
  then obtain r where r: "HashSetGet_loop cmp e h (Some a) = Some r" by auto
  have "\<not> (cmp = cmp \<and> e = e \<and> h = h \<and> Some a = Some a)"
    by (rule HashSetGet_loop.raw_induct[where
          P = "\<lambda>cmp' e' h' p r. \<not> (cmp' = cmp \<and> e' = e \<and> h' = h \<and> p = Some a)", OF _ r])
       (use assms in \<open>fastforce split: option.splits if_splits\<close>)
  then show False by simp
qed

lemma HashSetAdd_loop_match:
  "chain h p cs \<Longrightarrow> first_match cmp e cs < length cs \<Longrightarrow>
   \<exists>n. load h (fst (cs ! first_match cmp e cs)) = Some n \<and>
       HashSetAdd_loop cmp e h p =
         Some (Inr (store h (fst (cs ! first_match cmp e cs)) (n\<lparr>element := e\<rparr>)))"
proof (induction cs arbitrary: p)
  case Nil
  then show ?case by simp
next
  case (Cons c cs)
  then show ?case
    by (subst HashSetAdd_loop.simps) (auto simp: chain_def split: option.splits)
qed

lemma HashSetAdd_loop_nomatch:
  "chain h p cs \<Longrightarrow> cs \<noteq> [] \<Longrightarrow> \<forall>c\<in>set cs. cmp (snd c) e \<noteq> 0 \<Longrightarrow>
   \<exists>n. load h (fst (last cs)) = Some n \<and> nxt n = None \<and>
       HashSetAdd_loop cmp e h p =
         Some (Inr (store (snd (new_node h e)) (fst (last cs)) (n\<lparr>nxt := Some (length h)\<rparr>)))"
proof (induction cs arbitrary: p)
  case Nil
  then show ?case by simp
next
  case (Cons c cs)
  show ?case
  proof (cases cs)
    case Nil
    with Cons.prems show ?thesis
      by (subst HashSetAdd_loop.simps) (auto simp: chain_def new_node_def split: option.splits)
  next
    case (Cons d ds)
    with Cons.prems Cons.IH show ?thesis
      by (subst HashSetAdd_loop.simps) (auto simp: chain_def split: option.splits)
  qed
qed

lemma HashSetAdd_loop_returns:
  assumes "chain h p cs"
  shows "\<exists>h'. HashSetAdd_loop cmp e h p = Some (Inr h')"
proof (cases "cs = []")
  case True
  with assms show ?thesis
    by (subst HashSetAdd_loop.simps) (simp add: chain_def)
next
  case False
  show ?thesis
  proof (cases "first_match cmp e cs < length cs")
    case True
    from HashSetAdd_loop_match[OF assms True] show ?thesis by blast
  next
    case False
    then have "\<forall>c\<in>set cs. cmp (snd c) e \<noteq> 0"
      using first_match_le[of cmp e cs] by (simp add: first_match_length[symmetric])
    from HashSetAdd_loop_nomatch[where cmp = cmp and e = e, OF assms \<open>cs \<noteq> []\<close> this]
    show ?thesis by blast
  qed
qed

lemma HashSetRemove_loop_nomatch:
  "chain h es cs \<Longrightarrow> \<forall>c\<in>set cs. comparator hs (snd c) e \<noteq> 0 \<Longrightarrow>
   HashSetRemove_loop hs h e i es previous = Some (Inr (hs, h))"
proof (induction cs arbitrary: es previous)
  case Nil
  then show ?case by (subst HashSetRemove_loop.simps) (simp add: chain_def)
next
  case (Cons c cs)
  then show ?case
    by (subst HashSetRemove_loop.simps) (auto simp: chain_def split: option.splits)
qed

lemma HashSetRemove_loop_match:
  assumes "path h (elements hs ! i) pre es" and "path h es cs None"
    and "distinct (map fst (pre @ cs))"
    and "previous = (if pre = [] then None else Some (fst (last pre)))"
    and "first_match (comparator hs) e cs < length cs"
  shows "\<exists>q h'. HashSetRemove_loop hs h e i es previous =
             Some (Inr (hs\<lparr>elements := (elements hs)[i := q]\<rparr>, h')) \<and>
           path h' q (pre @ remove_chain (comparator hs) e cs) None \<and>
           (\<forall>a. a \<notin> fst ` set (pre @ cs) \<longrightarrow> load h' a = load h a) \<and>
           length h' = length h"
  using assms
proof (induction cs arbitrary: pre es previous)
  case Nil
  then show ?case by simp
next
  case (Cons c cs)
  from Cons.prems(2) obtain n where n: "es = Some (fst c)" "load h (fst c) = Some n"
      "element n = snd c" "path h (nxt n) cs None"
    by (auto split: option.splits)
  show ?case
  proof (cases "comparator hs (snd c) e = 0")
    case True
    show ?thesis
    proof (cases "pre = []")
      case True
      have "path (free h (fst c)) (nxt n) cs None"
        by (rule path_cong[OF n(4)]) (use Cons.prems(3) in \<open>auto simp: load_free image_iff\<close>)
      with True \<open>comparator hs (snd c) e = 0\<close> n Cons.prems(4) show ?thesis
        by (subst HashSetRemove_loop.simps)
           (auto simp: load_free intro!: exI[of _ "nxt n"])
    next
      case False
      then obtain pre' d where pre: "pre = pre' @ [d]"
        by (metis rev_exhaust)
      with Cons.prems(1) obtain pn where pn: "path h (elements hs ! i) pre' (Some (fst d))"
          "load h (fst d) = Some pn" "element pn = snd d" "nxt pn = es"
        by (auto simp: path_append split: option.splits)
      let ?h' = "free (store h (fst d) (pn\<lparr>nxt := nxt n\<rparr>)) (fst c)"
      from Cons.prems(3) pre have neq: "fst d \<noteq> fst c" "fst d \<notin> fst ` set pre'"
          "fst c \<notin> fst ` set pre'" "fst d \<notin> fst ` set cs" "fst c \<notin> fst ` set cs"
        by auto
      have "path ?h' (elements hs ! i) pre' (Some (fst d))"
        using pn(1) by (rule path_cong) (use neq in \<open>auto simp: load_free load_store image_iff\<close>)
      moreover have "path ?h' (nxt n) cs None"
        using n(4) by (rule path_cong) (use neq in \<open>auto simp: load_free load_store image_iff\<close>)
      moreover have "load ?h' (fst d) = Some (pn\<lparr>nxt := nxt n\<rparr>)"
        using neq pn(2) by (auto simp: load_free load_store dest: load_Some_less)
      ultimately have "path ?h' (elements hs ! i) (pre @ cs) None"
        using pre pn(3) by (auto simp: path_append)
      moreover have "hs\<lparr>elements := (elements hs)[i := elements hs ! i]\<rparr> = hs"
        by simp
      ultimately show ?thesis
        using \<open>comparator hs (snd c) e = 0\<close> n pn pre Cons.prems(4)
        by (subst HashSetRemove_loop.simps)
           (auto simp: load_free load_store
                 intro!: exI[of _ "elements hs ! i"])
    qed
  next
    case False
    have "path h (elements hs ! i) (pre @ [c]) (nxt n)"
      using Cons.prems(1) n by (auto simp: path_append)
    moreover have "distinct (map fst ((pre @ [c]) @ cs))"
      using Cons.prems(3) by simp
    moreover have "Some (fst c) = (if pre @ [c] = [] then None else Some (fst (last (pre @ [c]))))"
      by simp
    moreover have "first_match (comparator hs) e cs < length cs"
      using Cons.prems(5) False by simp
    ultimately obtain q h' where
      "HashSetRemove_loop hs h e i (nxt n) (Some (fst c)) =
         Some (Inr (hs\<lparr>elements := (elements hs)[i := q]\<rparr>, h'))"
      "path h' q ((pre @ [c]) @ remove_chain (comparator hs) e cs) None"
      "\<forall>a. a \<notin> fst ` set ((pre @ [c]) @ cs) \<longrightarrow> load h' a = load h a"
      "length h' = length h"
      using Cons.IH[OF _ n(4)] by blast
    with False n show ?thesis
      by (subst HashSetRemove_loop.simps) auto
  qed
qed

section \<open>The operations on a table\<close>

lemma bucket_of_less:
  "count hs \<noteq> 0 \<Longrightarrow> length (elements hs) = unat (count hs) \<Longrightarrow>
   bucket_of hs e < length (elements hs)"
  by (simp add: bucket_of_def unat_mod unat_gt_0)

lemma distinct_concat_nth:
  "distinct (concat xss) \<longleftrightarrow>
     (\<forall>i<length xss. distinct (xss ! i)) \<and>
     (\<forall>i<length xss. \<forall>j<length xss. i \<noteq> j \<longrightarrow> set (xss ! i) \<inter> set (xss ! j) = {})"
proof (induction xss)
  case Nil
  then show ?case by simp
next
  case (Cons xs xss)
  have un: "set xs \<inter> set (concat xss) = {} \<longleftrightarrow> (\<forall>j<length xss. set xs \<inter> set (xss ! j) = {})"
    by (fastforce simp: in_set_conv_nth)
  have "distinct (concat (xs # xss)) \<longleftrightarrow>
          distinct xs \<and> distinct (concat xss) \<and> set xs \<inter> set (concat xss) = {}"
    by simp
  also have "\<dots> \<longleftrightarrow> distinct xs \<and> (\<forall>i<length xss. distinct (xss ! i)) \<and>
     (\<forall>i<length xss. \<forall>j<length xss. i \<noteq> j \<longrightarrow> set (xss ! i) \<inter> set (xss ! j) = {}) \<and>
     (\<forall>j<length xss. set xs \<inter> set (xss ! j) = {})"
    unfolding Cons.IH un by blast
  also have "\<dots> \<longleftrightarrow> (\<forall>i<length (xs # xss). distinct ((xs # xss) ! i)) \<and>
     (\<forall>i<length (xs # xss). \<forall>j<length (xs # xss). i \<noteq> j \<longrightarrow>
         set ((xs # xss) ! i) \<inter> set ((xs # xss) ! j) = {})"
    by (simp add: All_less_Suc2) blast
  finally show ?case .
qed

lemma in_concat_nth: "(c \<in> set (concat bs)) = (\<exists>j<length bs. c \<in> set (bs ! j))"
  by (simp add: Bex_def in_set_conv_nth[of _ bs]) blast

lemma chains_nth:
  "bucket_chains hs h bs \<Longrightarrow> i < length bs \<Longrightarrow> chain h (elements hs ! i) (bs ! i)"
  by (simp add: bucket_chains_def list_all2_conv_all_nth)

lemma chains_length: "bucket_chains hs h bs \<Longrightarrow> length bs = length (elements hs)"
  by (auto simp: bucket_chains_def dest: list_all2_lengthD)

lemma table_chains: "table hs h bs \<Longrightarrow> bucket_chains hs h bs"
  by (simp add: table_def)

lemma chains_bucket:
  assumes "bucket_chains hs h bs" "count hs \<noteq> 0"
  shows "bucket_of hs e < length (elements hs)" "bucket_of hs e < length bs"
    "chain h (elements hs ! bucket_of hs e) (bs ! bucket_of hs e)"
proof -
  have len: "length (elements hs) = unat (count hs)" "length bs = length (elements hs)"
    using assms(1) chains_length[OF assms(1)] by (simp_all add: bucket_chains_def)
  show i: "bucket_of hs e < length (elements hs)"
    using assms(2) len(1) by (rule bucket_of_less)
  then show "bucket_of hs e < length bs" using len by simp
  then show "chain h (elements hs ! bucket_of hs e) (bs ! bucket_of hs e)"
    using chains_nth[OF assms(1)] by simp
qed

lemma table_disjoint:
  assumes "table hs h bs" "i < length bs" "j < length bs" "i \<noteq> j"
  shows "fst ` set (bs ! i) \<inter> fst ` set (bs ! j) = {}"
proof -
  from assms(1) have "distinct (concat (map (map fst) bs))"
    by (simp add: table_def map_concat)
  then have "\<forall>i<length (map (map fst) bs). \<forall>j<length (map (map fst) bs). i \<noteq> j \<longrightarrow>
      set (map (map fst) bs ! i) \<inter> set (map (map fst) bs ! j) = {}"
    unfolding distinct_concat_nth by (rule conjunct2)
  with assms(2-4) have "set (map (map fst) bs ! i) \<inter> set (map (map fst) bs ! j) = {}"
    by simp
  with assms(2,3) show ?thesis by simp
qed

lemma table_update:
  assumes t: "table hs h bs" and i: "i < length bs"
    and c: "chain h' q cs"
    and frame: "\<And>a. a \<notin> fst ` set (bs ! i) \<Longrightarrow> a < length h \<Longrightarrow> load h' a = load h a"
    and sub: "fst ` set cs \<subseteq> fst ` set (bs ! i) \<union> {a. length h \<le> a}"
  shows "table (hs\<lparr>elements := (elements hs)[i := q]\<rparr>) h' (bs[i := cs])"
proof -
  from t have ch: "bucket_chains hs h bs" by (simp add: table_def)
  have len: "length bs = length (elements hs)" using ch by (rule chains_length)
  have other: "chain h' (elements hs ! j) (bs ! j)" "fst ` set cs \<inter> fst ` set (bs ! j) = {}"
    if j: "j < length bs" "j \<noteq> i" for j
  proof -
    have cj: "chain h (elements hs ! j) (bs ! j)" using ch j(1) by (rule chains_nth)
    have dj: "fst ` set (bs ! i) \<inter> fst ` set (bs ! j) = {}"
      using table_disjoint[OF t i j(1)] j(2) by auto
    have "load h' a = load h a" if "a \<in> fst ` set (bs ! j)" for a
      using frame[of a] dj that chain_addr_less[OF cj that] by auto
    with cj show "chain h' (elements hs ! j) (bs ! j)"
      unfolding chain_def by (rule path_cong)
    show "fst ` set cs \<inter> fst ` set (bs ! j) = {}"
    proof (rule equals0I)
      fix a assume "a \<in> fst ` set cs \<inter> fst ` set (bs ! j)"
      then have a: "a \<in> fst ` set cs" "a \<in> fst ` set (bs ! j)" by blast+
      from chain_addr_less[OF cj a(2)] have "a < length h" .
      with sub a(1) have "a \<in> fst ` set (bs ! i)" by fastforce
      with dj a(2) show False by blast
    qed
  qed
  have "list_all2 (chain h') ((elements hs)[i := q]) (bs[i := cs])"
    using len i c other(1) by (auto simp: list_all2_conv_all_nth nth_list_update)
  moreover have "distinct (map fst (concat (bs[i := cs])))"
    unfolding map_concat distinct_concat_nth
  proof (intro conjI allI impI)
    fix j assume "j < length (map (map fst) (bs[i := cs]))"
    then have j: "j < length bs" by simp
    show "distinct (map (map fst) (bs[i := cs]) ! j)"
    proof (cases "j = i")
      case True
      with j c show ?thesis by (simp add: chain_def chain_distinct)
    next
      case False
      with j chains_nth[OF ch j] show ?thesis by (simp add: chain_def chain_distinct)
    qed
  next
    fix j k assume "j < length (map (map fst) (bs[i := cs]))"
      "k < length (map (map fst) (bs[i := cs]))" "j \<noteq> k"
    then have jk: "j < length bs" "k < length bs" "j \<noteq> k" by simp_all
    have eq: "set (map (map fst) (bs[i := cs]) ! l) = fst ` set (if l = i then cs else bs ! l)"
      if "l < length bs" for l
      using that by (simp add: nth_list_update)
    show "set (map (map fst) (bs[i := cs]) ! j) \<inter> set (map (map fst) (bs[i := cs]) ! k) = {}"
    proof (cases "j = i")
      case True
      with jk other(2)[of k] show ?thesis by (simp add: eq)
    next
      case False
      show ?thesis
      proof (cases "k = i")
        case True
        with jk other(2)[of j] show ?thesis by (simp add: eq Int_commute)
      next
        case False
        with \<open>j \<noteq> i\<close> jk table_disjoint[OF t jk] show ?thesis by (simp add: eq)
      qed
    qed
  qed
  ultimately show ?thesis
    using ch by (simp add: table_def bucket_chains_def)
qed

lemma elements_update_same [simp]: "hs\<lparr>elements := (elements hs)[i := elements hs ! i]\<rparr> = hs"
  by simp

lemma table_HashSetNew: "table (HashSetNew n hf cmp) [] (replicate (unat n) [])"
proof -
  have "list_all2 (chain []) (replicate (unat n) None) (replicate (unat n) [])"
    by (simp add: list_all2_conv_all_nth chain_def)
  moreover have "concat (replicate (unat n) ([]::(addr \<times> 'a) list)) = []"
    by (induction "unat n") (simp_all add: replicate_app_Cons_same)
  ultimately show ?thesis
    by (simp add: table_def bucket_chains_def HashSetNew_def)
qed

lemma HashSetGet_chains:
  assumes "bucket_chains hs h bs" "count hs \<noteq> 0"
  shows "HashSetGet hs h e =
           Some (Inr (find (\<lambda>x. comparator hs x e = 0) (map snd (bs ! bucket_of hs e))))"
proof -
  have len: "length (elements hs) = unat (count hs)" "length bs = length (elements hs)"
    using assms(1) chains_length[OF assms(1)] by (simp_all add: bucket_chains_def)
  have i: "bucket_of hs e < length (elements hs)"
    using assms(2) len(1) by (rule bucket_of_less)
  with len have "chain h (elements hs ! bucket_of hs e) (bs ! bucket_of hs e)"
    using chains_nth[OF assms(1)] by simp
  then have "HashSetGet_loop (comparator hs) e h (elements hs ! bucket_of hs e) =
      Some (Inr (find (\<lambda>x. comparator hs x e = 0) (map snd (bs ! bucket_of hs e))))"
    by (rule HashSetGet_loop_chain)
  with i assms(2) show ?thesis
    by (simp add: HashSetGet_def Let_def bucket_of_def[symmetric])
qed

lemma HashSetGet_HashSetNew:
  assumes "n \<noteq> 0"
  shows "HashSetGet (HashSetNew n hf cmp) [] p = Some (Inr None)"
proof -
  have nz: "count (HashSetNew n hf cmp) \<noteq> 0"
    using assms by (simp add: HashSetNew_def)
  note c = table_chains[OF table_HashSetNew, of n hf cmp]
  from chains_bucket(2)[OF c nz, of p]
  have "replicate (unat n) [] ! bucket_of (HashSetNew n hf cmp) p = ([]::(addr \<times> 'a) list)"
    by simp
  with HashSetGet_chains[OF c nz, of p] show ?thesis by simp
qed

lemma HashSetAdd_table:
  assumes t: "table hs h bs" and nz: "count hs \<noteq> 0" and idx: "i = bucket_of hs e"
  shows "\<exists>q h'. HashSetAdd hs h e = Some (Inr (hs\<lparr>elements := (elements hs)[i := q]\<rparr>, h')) \<and>
           table (hs\<lparr>elements := (elements hs)[i := q]\<rparr>) h'
             (bs[i := add_chain (comparator hs) e (length h) (bs ! i)]) \<and>
           (\<forall>a. a \<notin> fst ` set (bs ! i) \<longrightarrow> a < length h \<longrightarrow> load h' a = load h a) \<and>
           length h' =
             (if first_match (comparator hs) e (bs ! i) < length (bs ! i) then length h
              else Suc (length h)) \<and>
           q = (if bs ! i = [] then Some (length h) else elements hs ! i)"
proof -
  let ?cmp = "comparator hs"
  from t have ch: "bucket_chains hs h bs" by (simp add: table_def)
  have len: "length (elements hs) = unat (count hs)" "length bs = length (elements hs)"
    using ch chains_length[OF ch] by (simp_all add: bucket_chains_def)
  have i: "i < length (elements hs)"
    unfolding idx using nz len(1) by (rule bucket_of_less)
  with len have ci: "chain h (elements hs ! i) (bs ! i)"
    using chains_nth[OF ch] by simp
  have upd: "table (hs\<lparr>elements := (elements hs)[i := q]\<rparr>) h'
               (bs[i := add_chain ?cmp e (length h) (bs ! i)])"
    if "chain h' q (add_chain ?cmp e (length h) (bs ! i))"
      and "\<And>a. a \<notin> fst ` set (bs ! i) \<Longrightarrow> a < length h \<Longrightarrow> load h' a = load h a" for q h'
    using t _ that
  proof (rule table_update)
    show "i < length bs" using i len by simp
    show "fst ` set (add_chain ?cmp e (length h) (bs ! i)) \<subseteq> fst ` set (bs ! i) \<union> {a. length h \<le> a}"
      using add_chain_fst[of ?cmp e "length h" "bs ! i"] by auto
  qed
  show ?thesis
  proof (cases "bs ! i")
    case Nil
    with ci have head: "elements hs ! i = None" by (simp add: chain_def)
    let ?h' = "snd (new_node h e)"
    have "chain ?h' (Some (length h)) (add_chain ?cmp e (length h) (bs ! i))"
      by (simp add: Nil chain_def load_new_node)
    moreover have "\<And>a. a < length h \<Longrightarrow> load ?h' a = load h a"
      by (simp add: load_new_node)
    ultimately have "table (hs\<lparr>elements := (elements hs)[i := Some (length h)]\<rparr>) ?h'
               (bs[i := add_chain ?cmp e (length h) (bs ! i)])"
      by (intro upd) auto
    moreover have "HashSetAdd hs h e =
        Some (Inr (hs\<lparr>elements := (elements hs)[i := Some (length h)]\<rparr>, ?h'))"
      using i nz head
      by (simp add: HashSetAdd_def Let_def bucket_of_def[symmetric] idx[symmetric] new_node_def)
    ultimately show ?thesis
      using Nil by (intro exI[of _ "Some (length h)"] exI[of _ ?h']) (simp add: load_new_node)
  next
    case (Cons c cs)
    with ci obtain a where head: "elements hs ! i = Some a"
      by (auto simp: chain_def)
    have run: "HashSetAdd hs h e = Some (Inr (hs, h'))"
      if "HashSetAdd_loop ?cmp e h (elements hs ! i) = Some (Inr h')" for h'
      using i nz head that
      by (simp add: HashSetAdd_def Let_def bucket_of_def[symmetric] idx[symmetric])
    have ne: "bs ! i \<noteq> []" using Cons by simp
    show ?thesis
    proof (cases "first_match ?cmp e (bs ! i) < length (bs ! i)")
      case True
      let ?k = "first_match ?cmp e (bs ! i)"
      from HashSetAdd_loop_match[OF ci True] obtain n where
        n: "load h (fst (bs ! i ! ?k)) = Some n"
          "HashSetAdd_loop ?cmp e h (elements hs ! i) =
             Some (Inr (store h (fst (bs ! i ! ?k)) (n\<lparr>element := e\<rparr>)))"
        by blast
      let ?h' = "store h (fst (bs ! i ! ?k)) (n\<lparr>element := e\<rparr>)"
      have "chain ?h' (elements hs ! i) (add_chain ?cmp e (length h) (bs ! i))"
        using chain_replace[OF ci True n(1)] True by (simp add: add_chain_eq)
      moreover have fr: "\<And>a. a \<notin> fst ` set (bs ! i) \<Longrightarrow> load ?h' a = load h a"
        using True by (auto simp: load_store)
      ultimately have "table (hs\<lparr>elements := (elements hs)[i := elements hs ! i]\<rparr>) ?h'
               (bs[i := add_chain ?cmp e (length h) (bs ! i)])"
        by (intro upd) auto
      with run[OF n(2)] fr True ne show ?thesis
        by (intro exI[of _ "elements hs ! i"] exI[of _ ?h']) simp
    next
      case False
      then have nomatch: "\<forall>c\<in>set (bs ! i). ?cmp (snd c) e \<noteq> 0"
        using first_match_le[of ?cmp e "bs ! i"] by (simp add: first_match_length[symmetric])
      from HashSetAdd_loop_nomatch[where cmp = "comparator hs" and e = e, OF ci ne nomatch] obtain n where
        n: "load h (fst (last (bs ! i))) = Some n"
          "HashSetAdd_loop ?cmp e h (elements hs ! i) =
             Some (Inr (store (snd (new_node h e)) (fst (last (bs ! i))) (n\<lparr>nxt := Some (length h)\<rparr>)))"
        by blast
      let ?h' = "store (snd (new_node h e)) (fst (last (bs ! i))) (n\<lparr>nxt := Some (length h)\<rparr>)"
      have "chain ?h' (elements hs ! i) (add_chain ?cmp e (length h) (bs ! i))"
        using chain_append_node[OF ci ne n(1)] False by (simp add: add_chain_eq)
      moreover have fr: "\<And>a. a \<notin> fst ` set (bs ! i) \<Longrightarrow> a < length h \<Longrightarrow> load ?h' a = load h a"
        using ne by (auto simp: load_store load_new_node)
      ultimately have "table (hs\<lparr>elements := (elements hs)[i := elements hs ! i]\<rparr>) ?h'
               (bs[i := add_chain ?cmp e (length h) (bs ! i)])"
        by (intro upd) auto
      with run[OF n(2)] fr False ne show ?thesis
        by (intro exI[of _ "elements hs ! i"] exI[of _ ?h']) simp
    qed
  qed
qed

lemma HashSetAdd_returns:
  assumes "bucket_chains hs h bs" "count hs \<noteq> 0"
  shows "\<exists>r. HashSetAdd hs h e = Some (Inr r)"
proof -
  note b = chains_bucket[OF assms, of e]
  show ?thesis
  proof (cases "elements hs ! bucket_of hs e")
    case None
    with b(1) assms(2) show ?thesis
      by (simp add: HashSetAdd_def Let_def bucket_of_def[symmetric] new_node_def)
  next
    case (Some a)
    from HashSetAdd_loop_returns[OF b(3)] obtain h' where
      "HashSetAdd_loop (comparator hs) e h (elements hs ! bucket_of hs e) = Some (Inr h')"
      by blast
    with Some b(1) assms(2) show ?thesis
      by (simp add: HashSetAdd_def Let_def bucket_of_def[symmetric])
  qed
qed

lemma HashSetAdd_same_outside:
  assumes t: "table hs h bs" and nz: "count hs \<noteq> 0"
    and fr: "\<forall>a. a \<notin> fst ` set (bs ! i) \<longrightarrow> a < length h \<longrightarrow> load h' a = load h a"
    and i: "i < length bs"
  shows "same_outside i hs h bs (hs\<lparr>elements := (elements hs)[i := q]\<rparr>) h'"
proof -
  have ch: "bucket_chains hs h bs" using t by (rule table_chains)
  have "elements hs ! j = elements hs ! j \<and> chain h' (elements hs ! j) (bs ! j) \<and>
        (\<forall>c\<in>set (bs ! j). load h' (fst c) = load h (fst c))"
    if j: "j < length bs" "j \<noteq> i" for j
  proof -
    have cj: "chain h (elements hs ! j) (bs ! j)" using ch j(1) by (rule chains_nth)
    have dj: "fst ` set (bs ! i) \<inter> fst ` set (bs ! j) = {}"
      using table_disjoint[OF t i j(1)] j(2) by auto
    have same: "load h' a = load h a" if "a \<in> fst ` set (bs ! j)" for a
      using fr dj that chain_addr_less[OF cj that] by auto
    with cj have "chain h' (elements hs ! j) (bs ! j)"
      unfolding chain_def by (rule path_cong)
    with same show ?thesis by simp
  qed
  then show ?thesis
    by (simp add: same_outside_def)
qed

lemma HashSetRemove_table:
  assumes t: "table hs h bs" and nz: "count hs \<noteq> 0" and idx: "i = bucket_of hs e"
  shows "\<exists>q h'. HashSetRemove hs h e = Some (Inr (hs\<lparr>elements := (elements hs)[i := q]\<rparr>, h')) \<and>
           table (hs\<lparr>elements := (elements hs)[i := q]\<rparr>) h'
             (bs[i := remove_chain (comparator hs) e (bs ! i)]) \<and>
           (\<forall>a. a \<notin> fst ` set (bs ! i) \<longrightarrow> load h' a = load h a) \<and>
           length h' = length h"
proof -
  let ?cmp = "comparator hs"
  from t have ch: "bucket_chains hs h bs" by (simp add: table_def)
  have len: "length (elements hs) = unat (count hs)" "length bs = length (elements hs)"
    using ch chains_length[OF ch] by (simp_all add: bucket_chains_def)
  have i: "i < length (elements hs)"
    unfolding idx using nz len(1) by (rule bucket_of_less)
  with len have ci: "chain h (elements hs ! i) (bs ! i)"
    using chains_nth[OF ch] by simp
  have run: "HashSetRemove hs h e = HashSetRemove_loop hs h e i (elements hs ! i) None"
    using i nz by (simp add: HashSetRemove_def Let_def bucket_of_def[symmetric] idx[symmetric])
  show ?thesis
  proof (cases "first_match ?cmp e (bs ! i) < length (bs ! i)")
    case True
    have "path h (elements hs ! i) [] (elements hs ! i)" by simp
    moreover have "path h (elements hs ! i) (bs ! i) None" using ci by (simp add: chain_def)
    moreover have "distinct (map fst ([] @ bs ! i))"
      using ci by (simp add: chain_def chain_distinct)
    moreover have "None = (if ([]::(addr \<times> 'a) list) = [] then None else Some (fst (last [])))"
      by simp
    ultimately obtain q h' where r:
      "HashSetRemove_loop hs h e i (elements hs ! i) None =
         Some (Inr (hs\<lparr>elements := (elements hs)[i := q]\<rparr>, h'))"
      "path h' q ([] @ remove_chain ?cmp e (bs ! i)) None"
      "\<forall>a. a \<notin> fst ` set ([] @ bs ! i) \<longrightarrow> load h' a = load h a"
      "length h' = length h"
      using HashSetRemove_loop_match[OF _ _ _ _ True] by blast
    have "table (hs\<lparr>elements := (elements hs)[i := q]\<rparr>) h' (bs[i := remove_chain ?cmp e (bs ! i)])"
      using t
    proof (rule table_update)
      show "i < length bs" using i len by simp
      show "chain h' q (remove_chain ?cmp e (bs ! i))" using r(2) by (simp add: chain_def)
      show "\<And>a. a \<notin> fst ` set (bs ! i) \<Longrightarrow> a < length h \<Longrightarrow> load h' a = load h a"
        using r(3) by simp
      show "fst ` set (remove_chain ?cmp e (bs ! i)) \<subseteq> fst ` set (bs ! i) \<union> {a. length h \<le> a}"
        using remove_chain_subset[of ?cmp e "bs ! i"] by blast
    qed
    with r run show ?thesis
      by (intro exI[of _ q] exI[of _ h']) simp
  next
    case False
    then have nomatch: "\<forall>c\<in>set (bs ! i). ?cmp (snd c) e \<noteq> 0"
      using first_match_le[of ?cmp e "bs ! i"] by (simp add: first_match_length[symmetric])
    from HashSetRemove_loop_nomatch[where hs = hs and e = e, OF ci nomatch]
    have "HashSetRemove hs h e = Some (Inr (hs, h))" by (simp add: run)
    with t nomatch show ?thesis
      by (intro exI[of _ "elements hs ! i"] exI[of _ h]) (simp add: remove_chain_nomatch)
  qed
qed

lemma HashSetRemove_chains_nomatch:
  assumes "bucket_chains hs h bs" "count hs \<noteq> 0"
    and "\<forall>c\<in>set (bs ! bucket_of hs e). comparator hs (snd c) e \<noteq> 0"
  shows "HashSetRemove hs h e = Some (Inr (hs, h))"
proof -
  note b = chains_bucket[OF assms(1,2), of e]
  from HashSetRemove_loop_nomatch[where hs = hs and e = e, OF b(3) assms(3)] b(1) assms(2)
  show ?thesis
    by (simp add: HashSetRemove_def Let_def bucket_of_def[symmetric])
qed

lemma HashSetRemove_returns:
  assumes "bucket_chains hs h bs" "count hs \<noteq> 0"
  shows "\<exists>r. HashSetRemove hs h e = Some (Inr r)"
proof (cases "first_match (comparator hs) e (bs ! bucket_of hs e) < length (bs ! bucket_of hs e)")
  case True
  note b = chains_bucket[OF assms, of e]
  let ?i = "bucket_of hs e"
  have "path h (elements hs ! ?i) [] (elements hs ! ?i)" by simp
  moreover have "path h (elements hs ! ?i) (bs ! ?i) None" using b(3) by (simp add: chain_def)
  moreover have "distinct (map fst ([] @ bs ! ?i))"
    using b(3) by (simp add: chain_def chain_distinct)
  moreover have "None = (if ([]::(addr \<times> 'a) list) = [] then None else Some (fst (last [])))"
    by simp
  ultimately obtain q h' where
    "HashSetRemove_loop hs h e ?i (elements hs ! ?i) None =
       Some (Inr (hs\<lparr>elements := (elements hs)[?i := q]\<rparr>, h'))"
    using HashSetRemove_loop_match[OF _ _ _ _ True] by blast
  with b(1) assms(2) show ?thesis
    by (simp add: HashSetRemove_def Let_def bucket_of_def[symmetric])
next
  case False
  then have "\<forall>c\<in>set (bs ! bucket_of hs e). comparator hs (snd c) e \<noteq> 0"
    by (simp add: nomatch_iff)
  from HashSetRemove_chains_nomatch[OF assms this] show ?thesis by simp
qed

section \<open>The iterator\<close>

lemma unat_succ:
  fixes b c :: size_t
  assumes "b < c" shows "unat (b + 1) = Suc (unat b)"
proof -
  have "1 + b \<noteq> 0"
  proof
    assume "1 + b = 0"
    then have "b = - 1" by (simp add: eq_neg_iff_add_eq_0 add.commute)
    with assms show False by (simp add: not_less)
  qed
  then show ?thesis by (simp add: unatSuc add.commute)
qed

lemma HashSetIteratorNext_step:
  assumes "iter_at hs h bs i cs"
  shows "case remaining bs i cs of
           [] \<Rightarrow> HashSetIteratorNext hs h i = Inr (None, \<lparr>bucket = count hs, element_it = None\<rparr>)
         | x # xs \<Rightarrow> \<exists>i' cs'. HashSetIteratorNext hs h i = Inr (Some x, i') \<and>
                       iter_at hs h bs i' cs' \<and> remaining bs i' cs' = xs"
  using assms
proof (induction "length bs - unat (bucket i)" arbitrary: i cs)
  case 0
  then show ?case by (simp add: iter_at_def)
next
  case (Suc m)
  from Suc.prems have ch: "bucket_chains hs h bs" and k: "unat (bucket i) < length bs"
    and cur: "chain h (element_it i) cs"
    by (simp_all add: iter_at_def)
  have len: "length (elements hs) = unat (count hs)" "length bs = length (elements hs)"
    using ch chains_length[OF ch] by (simp_all add: bucket_chains_def)
  have lt: "bucket i < count hs"
    using k len by (simp add: word_less_nat_alt)
  have succ: "unat (bucket i + 1) = Suc (unat (bucket i))"
    using lt by (rule unat_succ)
  show ?case
  proof (cases cs)
    case (Cons c cs')
    with cur obtain n where n: "element_it i = Some (fst c)" "load h (fst c) = Some n"
        "element n = snd c" "chain h (nxt n) cs'"
      by (auto simp: chain_def split: option.splits)
    have "HashSetIteratorNext hs h i = Inr (Some (snd c), i\<lparr>element_it := nxt n\<rparr>)"
      using lt n by (subst HashSetIteratorNext.simps) simp
    moreover have "iter_at hs h bs (i\<lparr>element_it := nxt n\<rparr>) cs'"
      using ch k n(4) by (simp add: iter_at_def)
    moreover have "remaining bs (i\<lparr>element_it := nxt n\<rparr>) cs' = map snd cs' @ map snd (concat (drop (Suc (unat (bucket i))) bs))"
      by (simp add: remaining_def)
    ultimately show ?thesis
      using Cons by (auto simp: remaining_def)
  next
    case Nil
    with cur have none: "element_it i = None" by (simp add: chain_def)
    show ?thesis
    proof (cases "bucket i + 1 = count hs")
      case True
      then have "Suc (unat (bucket i)) = length bs"
        using succ len by simp
      moreover have "HashSetIteratorNext hs h i = Inr (None, \<lparr>bucket = count hs, element_it = None\<rparr>)"
        using lt none True by (subst HashSetIteratorNext.simps) simp
      ultimately show ?thesis
        using Nil by (simp add: remaining_def)
    next
      case False
      let ?i' = "i\<lparr>bucket := bucket i + 1, element_it := elements hs ! unat (bucket i + 1)\<rparr>"
      have "unat (bucket i + 1) \<noteq> unat (count hs)"
        using False by (simp add: word_unat_eq_iff)
      with k succ len have k': "Suc (unat (bucket i)) < length bs"
        by simp
      have step: "HashSetIteratorNext hs h i = HashSetIteratorNext hs h ?i'"
        using lt none False k' len succ by (subst HashSetIteratorNext.simps) simp
      have at: "iter_at hs h bs ?i' (bs ! Suc (unat (bucket i)))"
        using ch k' succ chains_nth[OF ch k'] by (simp add: iter_at_def)
      have rem: "remaining bs ?i' (bs ! Suc (unat (bucket i))) = remaining bs i cs"
        using Nil k' succ by (simp add: remaining_def Cons_nth_drop_Suc[symmetric] del: drop_Suc)
      have "m = length bs - unat (bucket ?i')"
        using Suc.hyps(2) succ by simp
      from Suc.hyps(1)[OF this at] show ?thesis
        unfolding rem step .
    qed
  qed
qed

lemma iterate_all_remaining:
  "iter_at hs h bs i cs \<Longrightarrow>
   iterate_all hs h i seen =
     Some (Inr (seen @ remaining bs i cs, \<lparr>bucket = count hs, element_it = None\<rparr>))"
proof (induction "remaining bs i cs" arbitrary: i cs seen)
  case Nil
  with HashSetIteratorNext_step[OF Nil.prems] show ?case
    by (subst iterate_all.simps) (simp add: Nil.hyps[symmetric])
next
  case (Cons x xs)
  from HashSetIteratorNext_step[OF Cons.prems] Cons.hyps(2)[symmetric]
  obtain i' cs' where s: "HashSetIteratorNext hs h i = Inr (Some x, i')"
      "iter_at hs h bs i' cs'" "remaining bs i' cs' = xs"
    by auto
  from Cons.hyps(1)[OF s(3)[symmetric] s(2)] s(1,3) Cons.hyps(2)[symmetric] show ?case
    by (subst iterate_all.simps) simp
qed

lemma HashSetIteratorNext_end:
  "HashSetIteratorNext hs h i = Inr (None, i') \<Longrightarrow> \<not> bucket i' < count hs"
proof (induction hs h i rule: HashSetIteratorNext.induct)
  case (1 hs h i)
  show ?case
  proof (cases "bucket i < count hs")
    case False
    with "1.prems" show ?thesis by (subst (asm) HashSetIteratorNext.simps) simp
  next
    case True
    note lt = this
    show ?thesis
    proof (cases "element_it i")
      case (Some a)
      with lt "1.prems" show ?thesis
        by (subst (asm) HashSetIteratorNext.simps) (simp split: option.splits)
    next
      case None
      with lt "1.prems" "1.IH" show ?thesis
        by (subst (asm) HashSetIteratorNext.simps) (auto split: if_splits)
    qed
  qed
qed

lemma HashSetIteratorNext_exhausted:
  "\<not> bucket i < count hs \<Longrightarrow> HashSetIteratorNext hs h i = Inr (None, i)"
  by (subst HashSetIteratorNext.simps) simp

lemma HashSetIteratorNext_times_exhausted:
  "\<not> bucket i < count hs \<Longrightarrow> HashSetIteratorNext_times hs h n i = Inr (replicate n None, i)"
  by (induction n) (simp_all add: HashSetIteratorNext_exhausted)

lemma HashSetIteratorNew_chains:
  assumes "bucket_chains hs h bs" "count hs \<noteq> 0"
  shows "\<exists>it. HashSetIteratorNew hs = Inr it \<and> iter_at hs h bs it (bs ! 0) \<and>
           remaining bs it (bs ! 0) = map snd (concat bs)"
proof -
  have len: "length (elements hs) = unat (count hs)" "length bs = length (elements hs)"
    using assms(1) chains_length[OF assms(1)] by (simp_all add: bucket_chains_def)
  from assms(2) len have pos: "0 < length bs"
    by (simp add: unat_gt_0)
  then obtain p ps where e: "elements hs = p # ps"
    using len by (cases "elements hs") auto
  let ?it = "\<lparr>bucket = 0, element_it = p\<rparr>"
  have "chain h p (bs ! 0)"
    using chains_nth[OF assms(1) pos] e by simp
  with assms(1) pos have "iter_at hs h bs ?it (bs ! 0)"
    by (simp add: iter_at_def)
  moreover have "remaining bs ?it (bs ! 0) = map snd (concat bs)"
    using pos by (cases bs) (simp_all add: remaining_def)
  moreover have "HashSetIteratorNew hs = Inr ?it"
    by (simp add: HashSetIteratorNew_def e)
  ultimately show ?thesis by blast
qed

lemma iterate_all_from_new:
  assumes "bucket_chains hs h bs" and "count hs \<noteq> 0"
  shows "\<exists>it. HashSetIteratorNew hs = Inr it \<and> iter_at hs h bs it (bs ! 0) \<and>
           iterate_all hs h it [] =
             Some (Inr (map snd (concat bs), \<lparr>bucket = count hs, element_it = None\<rparr>))"
proof -
  from HashSetIteratorNew_chains[OF assms] obtain it where
    it: "HashSetIteratorNew hs = Inr it" "iter_at hs h bs it (bs ! 0)"
      "remaining bs it (bs ! 0) = map snd (concat bs)"
    by blast
  have "iterate_all hs h it [] =
      Some (Inr (map snd (concat bs), \<lparr>bucket = count hs, element_it = None\<rparr>))"
    using iterate_all_remaining[OF it(2), of "[]"] it(3) by simp
  with it(1,2) show ?thesis by blast
qed

section \<open>Tables whose callbacks read the key\<close>

lemma keyed_update [simp]: "keyed key (hs\<lparr>elements := es\<rparr>) = keyed key hs"
  by (simp add: keyed_def)

lemma bucket_of_update [simp]: "bucket_of (hs\<lparr>elements := es\<rparr>) e = bucket_of hs e"
  by (simp add: bucket_of_def)

lemma keyed_cmp: "keyed key hs \<Longrightarrow> (comparator hs a b = 0) = (key a = key b)"
  by (simp add: keyed_def)

lemma keyed_bucket:
  assumes "keyed key hs" "key a = key b"
  shows "bucket_of hs a = bucket_of hs b"
proof -
  from assms have "hasher hs a = hasher hs b"
    unfolding keyed_def by blast
  then show ?thesis by (simp add: bucket_of_def)
qed

lemma placed_nth:
  "placed hs bs \<Longrightarrow> j < length bs \<Longrightarrow> c \<in> set (bs ! j) \<Longrightarrow> bucket_of hs (snd c) = j"
  by (simp add: placed_def list_all2_conv_all_nth)

lemma placedI:
  "(\<And>j c. j < length bs \<Longrightarrow> c \<in> set (bs ! j) \<Longrightarrow> bucket_of hs (snd c) = j) \<Longrightarrow> placed hs bs"
  by (simp add: placed_def list_all2_conv_all_nth)

lemma unique_keys_nth:
  "unique_keys key bs \<Longrightarrow> j < length bs \<Longrightarrow> distinct (map (\<lambda>c. key (snd c)) (bs ! j))"
  by (simp add: unique_keys_def)

lemma unique_keysI:
  "(\<And>j. j < length bs \<Longrightarrow> distinct (map (\<lambda>c. key (snd c)) (bs ! j))) \<Longrightarrow> unique_keys key bs"
  by (auto simp: unique_keys_def in_set_conv_nth)

lemma keyed_table_distinct:
  assumes "keyed_table key hs h bs"
  shows "distinct (map key (map snd (concat bs)))"
proof -
  from assms have k: "keyed key hs" and p: "placed hs bs" and u: "unique_keys key bs"
    by (simp_all add: keyed_table_def)
  let ?f = "\<lambda>c. key (snd c)"
  have "distinct (concat (map (map ?f) bs))"
    unfolding distinct_concat_nth
  proof (intro conjI allI impI)
    fix i assume "i < length (map (map ?f) bs)"
    then show "distinct (map (map ?f) bs ! i)"
      using unique_keys_nth[OF u, of i] by simp
  next
    fix i j assume ij: "i < length (map (map ?f) bs)" "j < length (map (map ?f) bs)" "i \<noteq> j"
    show "set (map (map ?f) bs ! i) \<inter> set (map (map ?f) bs ! j) = {}"
    proof (rule equals0I)
      fix x assume "x \<in> set (map (map ?f) bs ! i) \<inter> set (map (map ?f) bs ! j)"
      with ij obtain c d where cd: "c \<in> set (bs ! i)" "d \<in> set (bs ! j)" "key (snd c) = key (snd d)"
        by auto
      from keyed_bucket[OF k cd(3)] placed_nth[OF p _ cd(1)] placed_nth[OF p _ cd(2)] ij
      show False by simp
    qed
  qed
  then show ?thesis
    by (simp add: map_concat comp_def)
qed

lemma keyed_table_HashSetNew:
  assumes "n \<noteq> 0" "keyed key (HashSetNew n hf cmp)"
  shows "keyed_table key (HashSetNew n hf cmp) [] (replicate (unat n) [])"
proof -
  have "list_all2 (chain []) (replicate (unat n) None) (replicate (unat n) [])"
    by (simp add: list_all2_conv_all_nth chain_def)
  moreover have "concat (replicate (unat n) ([]::(addr \<times> 'a) list)) = []"
    by (induction "unat n") (simp_all add: replicate_app_Cons_same)
  ultimately have "table (HashSetNew n hf cmp) [] (replicate (unat n) [])"
    by (simp add: table_def bucket_chains_def HashSetNew_def)
  moreover have "placed (HashSetNew n hf cmp) (replicate (unat n) [])"
    by (rule placedI) simp
  moreover have "unique_keys key (replicate (unat n) [])"
    by (rule unique_keysI) simp
  ultimately show ?thesis
    using assms by (simp add: keyed_table_def HashSetNew_def)
qed

lemma HashSetAdd_keyed_table:
  assumes kt: "keyed_table key hs h bs" and idx: "i = bucket_of hs e"
  shows "\<exists>q h'. HashSetAdd hs h e = Some (Inr (hs\<lparr>elements := (elements hs)[i := q]\<rparr>, h')) \<and>
           keyed_table key (hs\<lparr>elements := (elements hs)[i := q]\<rparr>) h'
             (bs[i := add_chain (comparator hs) e (length h) (bs ! i)])"
proof -
  from kt have nz: "count hs \<noteq> 0" and k: "keyed key hs" and t: "table hs h bs"
    and p: "placed hs bs" and u: "unique_keys key bs"
    by (simp_all add: keyed_table_def)
  let ?cs = "add_chain (comparator hs) e (length h) (bs ! i)"
  note b = chains_bucket[OF table_chains[OF t] nz, of e, folded idx]
  from HashSetAdd_table[OF t nz idx] obtain q h' where
    r: "HashSetAdd hs h e = Some (Inr (hs\<lparr>elements := (elements hs)[i := q]\<rparr>, h'))"
      "table (hs\<lparr>elements := (elements hs)[i := q]\<rparr>) h' (bs[i := ?cs])"
    by blast
  have "placed (hs\<lparr>elements := (elements hs)[i := q]\<rparr>) (bs[i := ?cs])"
  proof (rule placedI)
    fix j c assume j: "j < length (bs[i := ?cs])" "c \<in> set (bs[i := ?cs] ! j)"
    show "bucket_of (hs\<lparr>elements := (elements hs)[i := q]\<rparr>) (snd c) = j"
    proof (cases "j = i")
      case True
      with j have "snd c \<in> insert e (snd ` set (bs ! i))"
        using add_chain_snd[of "comparator hs" e "length h" "bs ! i"] by auto
      with True idx placed_nth[OF p b(2)] show ?thesis by auto
    next
      case False
      with j placed_nth[OF p, of j c] show ?thesis by simp
    qed
  qed
  moreover have "unique_keys key (bs[i := ?cs])"
  proof (rule unique_keysI)
    fix j assume j: "j < length (bs[i := ?cs])"
    show "distinct (map (\<lambda>c. key (snd c)) (bs[i := ?cs] ! j))"
    proof (cases "j = i")
      case True
      have "distinct (map (\<lambda>c. key (snd c)) ?cs)"
        using unique_keys_nth[OF u b(2)]
        by (subst add_chain_keys[where key = key]) (auto simp: keyed_cmp[OF k])
      with True j show ?thesis by simp
    next
      case False
      with j unique_keys_nth[OF u, of j] show ?thesis by simp
    qed
  qed
  ultimately show ?thesis
    using r nz k by (intro exI[of _ q] exI[of _ h']) (simp add: keyed_table_def)
qed

lemma HashSetRemove_keyed_table:
  assumes kt: "keyed_table key hs h bs" and idx: "i = bucket_of hs e"
  shows "\<exists>q h'. HashSetRemove hs h e = Some (Inr (hs\<lparr>elements := (elements hs)[i := q]\<rparr>, h')) \<and>
           keyed_table key (hs\<lparr>elements := (elements hs)[i := q]\<rparr>) h'
             (bs[i := remove_chain (comparator hs) e (bs ! i)])"
proof -
  from kt have nz: "count hs \<noteq> 0" and k: "keyed key hs" and t: "table hs h bs"
    and p: "placed hs bs" and u: "unique_keys key bs"
    by (simp_all add: keyed_table_def)
  let ?cs = "remove_chain (comparator hs) e (bs ! i)"
  note b = chains_bucket[OF table_chains[OF t] nz, of e, folded idx]
  from HashSetRemove_table[OF t nz idx] obtain q h' where
    r: "HashSetRemove hs h e = Some (Inr (hs\<lparr>elements := (elements hs)[i := q]\<rparr>, h'))"
      "table (hs\<lparr>elements := (elements hs)[i := q]\<rparr>) h' (bs[i := ?cs])"
    by blast
  have "placed (hs\<lparr>elements := (elements hs)[i := q]\<rparr>) (bs[i := ?cs])"
  proof (rule placedI)
    fix j c assume j: "j < length (bs[i := ?cs])" "c \<in> set (bs[i := ?cs] ! j)"
    show "bucket_of (hs\<lparr>elements := (elements hs)[i := q]\<rparr>) (snd c) = j"
    proof (cases "j = i")
      case True
      with j have "c \<in> set (bs ! i)"
        using remove_chain_subset[of "comparator hs" e "bs ! i"] by auto
      with True placed_nth[OF p b(2)] show ?thesis by auto
    next
      case False
      with j placed_nth[OF p, of j c] show ?thesis by simp
    qed
  qed
  moreover have "unique_keys key (bs[i := ?cs])"
  proof (rule unique_keysI)
    fix j assume j: "j < length (bs[i := ?cs])"
    show "distinct (map (\<lambda>c. key (snd c)) (bs[i := ?cs] ! j))"
    proof (cases "j = i")
      case True
      with j unique_keys_nth[OF u b(2)] show ?thesis
        by (simp add: remove_chain_distinct)
    next
      case False
      with j unique_keys_nth[OF u, of j] show ?thesis by simp
    qed
  qed
  ultimately show ?thesis
    using r nz k by (intro exI[of _ q] exI[of _ h']) (simp add: keyed_table_def)
qed

lemma HashSetAdd_all_keyed_table:
  assumes "keyed_table key hs h bs"
  shows "\<exists>hs' h' bs'. HashSetAdd_all hs h es = Some (Inr (hs', h')) \<and> keyed_table key hs' h' bs'"
  using assms
proof (induction es arbitrary: hs h bs)
  case Nil
  then show ?case by auto
next
  case (Cons x es)
  from HashSetAdd_keyed_table[OF Cons.prems refl, of x] obtain hs1 h1 bs1 where
    "HashSetAdd hs h x = Some (Inr (hs1, h1))" "keyed_table key hs1 h1 bs1"
    by blast
  with Cons.IH[OF this(2)] show ?case by simp
qed

lemma keyed_table_stored_iff:
  assumes kt: "keyed_table key hs h bs"
  shows "(x \<in> snd ` set (concat bs)) = (HashSetGet hs h x = Some (Inr (Some x)))"
proof -
  from kt have nz: "count hs \<noteq> 0" and k: "keyed key hs" and t: "table hs h bs"
    and p: "placed hs bs" and u: "unique_keys key bs"
    by (simp_all add: keyed_table_def)
  note b = chains_bucket[OF table_chains[OF t] nz, of x]
  have get: "HashSetGet hs h x =
      Some (Inr (find (\<lambda>y. key y = key x) (map snd (bs ! bucket_of hs x))))"
    using HashSetGet_chains[OF table_chains[OF t] nz, of x] by (simp add: keyed_cmp[OF k])
  show ?thesis
  proof
    assume "x \<in> snd ` set (concat bs)"
    then obtain c j where c: "j < length bs" "c \<in> set (bs ! j)" "x = snd c"
      by (metis imageE in_concat_nth)
    with placed_nth[OF p c(1,2)] have "x \<in> set (map snd (bs ! bucket_of hs x))"
      by auto
    moreover have "distinct (map key (map snd (bs ! bucket_of hs x)))"
      using unique_keys_nth[OF u b(2)] by (simp add: comp_def)
    ultimately show "HashSetGet hs h x = Some (Inr (Some x))"
      unfolding get by (simp only: find_distinct_key)
  next
    assume "HashSetGet hs h x = Some (Inr (Some x))"
    then have "find (\<lambda>y. key y = key x) (map snd (bs ! bucket_of hs x)) = Some x"
      by (simp add: get)
    then have "x \<in> set (map snd (bs ! bucket_of hs x))"
      by (auto simp: find_Some_iff)
    with b(2) show "x \<in> snd ` set (concat bs)"
      unfolding in_concat_nth image_iff by auto
  qed
qed

lemma HashSetGet_after_HashSetAdd:
  assumes t: "table hs h bs" and nz: "count hs \<noteq> 0" and k: "keyed key hs"
  shows "\<exists>hs' h' bs'. HashSetAdd hs h x = Some (Inr (hs', h')) \<and> table hs' h' bs' \<and>
           count hs' = count hs \<and> keyed key hs' \<and>
           (\<forall>p. HashSetGet hs' h' p =
                  (if key p = key x then Some (Inr (Some x)) else HashSetGet hs h p))"
proof -
  let ?i = "bucket_of hs x"
  let ?cmp = "comparator hs"
  from HashSetAdd_table[OF t nz refl, of x] obtain q h' where
    r: "HashSetAdd hs h x = Some (Inr (hs\<lparr>elements := (elements hs)[?i := q]\<rparr>, h'))"
      "table (hs\<lparr>elements := (elements hs)[?i := q]\<rparr>) h'
         (bs[?i := add_chain ?cmp x (length h) (bs ! ?i)])"
    by blast
  let ?hs' = "hs\<lparr>elements := (elements hs)[?i := q]\<rparr>"
  let ?bs' = "bs[?i := add_chain ?cmp x (length h) (bs ! ?i)]"
  have "HashSetGet ?hs' h' p = (if key p = key x then Some (Inr (Some x)) else HashSetGet hs h p)"
    for p
  proof -
    have new: "HashSetGet ?hs' h' p =
        Some (Inr (find (\<lambda>y. ?cmp y p = 0) (map snd (?bs' ! bucket_of hs p))))"
      using HashSetGet_chains[OF table_chains[OF r(2)], of p] nz by simp
    have old: "HashSetGet hs h p =
        Some (Inr (find (\<lambda>y. ?cmp y p = 0) (map snd (bs ! bucket_of hs p))))"
      using table_chains[OF t] nz by (rule HashSetGet_chains)
    note b = chains_bucket[OF table_chains[OF t] nz]
    show ?thesis
    proof (cases "bucket_of hs p = ?i")
      case True
      with b(2)[of x] have "?bs' ! bucket_of hs p = add_chain ?cmp x (length h) (bs ! ?i)"
        by simp
      with new old True show ?thesis
        by (simp add: find_add_chain[where key = key, OF keyed_cmp[OF k]] eq_commute[of "key x"])
    next
      case False
      with keyed_bucket[OF k, of p x] have "key p \<noteq> key x" by auto
      with new old False show ?thesis by simp
    qed
  qed
  with r k show ?thesis
    by (intro exI[of _ ?hs'] exI[of _ h'] exI[of _ ?bs']) simp
qed

lemma HashSetAdd_all_Get:
  assumes "table hs h bs" and "count hs \<noteq> 0" and "keyed key hs"
  shows "\<exists>hs' h' bs'. HashSetAdd_all hs h es = Some (Inr (hs', h')) \<and> table hs' h' bs' \<and>
           count hs' = count hs \<and> keyed key hs' \<and>
           (\<forall>p. HashSetGet hs' h' p =
                  (if key p \<in> key ` set es
                   then Some (Inr (Some (last (filter (\<lambda>y. key y = key p) es))))
                   else HashSetGet hs h p))"
  using assms
proof (induction es arbitrary: hs h bs)
  case Nil
  then show ?case by auto
next
  case (Cons x es)
  from HashSetGet_after_HashSetAdd[OF Cons.prems, of x] obtain hs1 h1 bs1 where
    s1: "HashSetAdd hs h x = Some (Inr (hs1, h1))" "table hs1 h1 bs1" "count hs1 = count hs"
      "keyed key hs1"
      "\<And>p. HashSetGet hs1 h1 p =
          (if key p = key x then Some (Inr (Some x)) else HashSetGet hs h p)"
    by blast
  from s1(3) Cons.prems(2) have nz1: "count hs1 \<noteq> 0" by simp
  from Cons.IH[OF s1(2) nz1 s1(4)] obtain hs' h' bs' where
    s2: "HashSetAdd_all hs1 h1 es = Some (Inr (hs', h'))" "table hs' h' bs'"
      "count hs' = count hs1" "keyed key hs'"
      "\<And>p. HashSetGet hs' h' p =
          (if key p \<in> key ` set es
           then Some (Inr (Some (last (filter (\<lambda>y. key y = key p) es))))
           else HashSetGet hs1 h1 p)"
    by blast
  have "HashSetGet hs' h' p =
      (if key p \<in> key ` set (x # es)
       then Some (Inr (Some (last (filter (\<lambda>y. key y = key p) (x # es)))))
       else HashSetGet hs h p)" for p
  proof (cases "key p \<in> key ` set es")
    case True
    then have "filter (\<lambda>y. key y = key p) es \<noteq> []"
      by (auto simp: filter_empty_conv)
    with True s2(5)[of p] show ?thesis by simp
  next
    case False
    then have "filter (\<lambda>y. key y = key p) es = []"
      unfolding filter_empty_conv by (metis image_eqI)
    with False s2(5)[of p] s1(5)[of p] show ?thesis by auto
  qed
  with s1(1,3) s2(1-4) show ?case
    by (intro exI[of _ hs'] exI[of _ h'] exI[of _ bs']) simp
qed

lemma last_per_key_keys:
  "key ` (\<lambda>k. last (filter (\<lambda>y. key y = k) es)) ` key ` set es = key ` set es"
proof -
  have "key (last (filter (\<lambda>y. key y = key x) es)) = key x" if "x \<in> set es" for x
  proof -
    from that have "filter (\<lambda>y. key y = key x) es \<noteq> []"
      by (auto simp: filter_empty_conv)
    from last_in_set[OF this] show ?thesis by simp
  qed
  then show ?thesis
    by (simp add: image_image)
qed

lemma distinct_keys_length:
  assumes "distinct (map key xs)" "set xs = (\<lambda>k. last (filter (\<lambda>y. key y = k) es)) ` key ` set es"
  shows "length xs = card (key ` set es)"
proof -
  have "length xs = length (map key xs)" by simp
  also have "\<dots> = card (set (map key xs))"
    using assms(1) by (rule distinct_card[symmetric])
  also have "set (map key xs) = key ` set es"
    by (simp add: assms(2) last_per_key_keys)
  finally show ?thesis .
qed

section \<open>The example table\<close>

lemma replicate_two: "replicate 2 x = [x, x]"
  by (simp add: numeral_2_eq_2)

lemma upt_two: "[0..<2] = [0, 1]"
  by (simp add: numeral_2_eq_2)

lemma example_table: "table example_set example_heap example_chains"
  by (simp add: table_def bucket_chains_def chain_def load_def example_set_def example_heap_def
      example_chains_def)

lemma example_count: "count example_set \<noteq> 0"
  by (simp add: example_set_def)

lemma example_built:
  "HashSetAdd_all (HashSetNew 2 ItemHash ItemCompare) []
     [\<lparr>index = 1, word = ''hello''\<rparr>, \<lparr>index = 273, word = ''world''\<rparr>, \<lparr>index = 6000, word = ''wow''\<rparr>] =
   Some (Inr (example_set, example_heap))"
  by (simp add: HashSetNew_def HashSetAdd_def HashSetAdd_loop.simps new_node_def load_def
      store_def ItemHash_def ItemCompare_def example_set_def example_heap_def Let_def
      replicate_two)

lemma example_bucket: "bucket_of example_set \<lparr>index = 1, word = ''HELLO''\<rparr> = 1"
  by (simp add: bucket_of_def example_set_def ItemHash_def)

lemma example_length: "length example_chains = 2"
  by (simp add: example_chains_def)

lemma example_keyed: "keyed index example_set"
  by (auto simp: keyed_def example_set_def ItemCompare_def ItemHash_def)

lemma example_keyed_table: "keyed_table index example_set example_heap example_chains"
proof -
  have "placed example_set example_chains"
    unfolding placed_def example_length upt_two
    by (simp add: example_chains_def bucket_of_def example_set_def ItemHash_def)
  moreover have "unique_keys index example_chains"
    by (simp add: unique_keys_def example_chains_def)
  ultimately show ?thesis
    using example_table example_count example_keyed by (simp add: keyed_table_def)
qed

section \<open>The claims\<close>

text \<open>
  Claim C1. Starting from a fresh table with at least one bucket and callbacks that read
  the key, after any sequence \<open>es\<close> of \<^verbatim>\<open>HashSetAdd\<close> calls the operations have returned
  and a full iteration yields no two elements with the same key: it yields, for every key
  that was inserted, exactly the element inserted last with that key, and as many elements
  as keys were inserted. So an insert of a key that is already stored replaces the stored
  reference and adds no entry.
\<close>

theorem HashSetAdd_unique_keys:
  assumes "n \<noteq> 0" and "keyed key (HashSetNew n hf cmp)"
  shows "\<exists>hs h it xs it'.
           HashSetAdd_all (HashSetNew n hf cmp) [] es = Some (Inr (hs, h)) \<and>
           HashSetIteratorNew hs = Inr it \<and>
           iterate_all hs h it [] = Some (Inr (xs, it')) \<and>
           distinct (map key xs) \<and>
           set xs = (\<lambda>k. last (filter (\<lambda>y. key y = k) es)) ` key ` set es \<and>
           length xs = card (key ` set es)"
proof -
  let ?new = "HashSetNew n hf cmp"
  have nz: "count ?new \<noteq> 0" using assms(1) by (simp add: HashSetNew_def)
  from HashSetAdd_all_keyed_table[OF keyed_table_HashSetNew[OF assms], of es] obtain hs h bs where
    r: "HashSetAdd_all ?new [] es = Some (Inr (hs, h))" "keyed_table key hs h bs"
    by blast
  from r(2) have t: "table hs h bs" and nz': "count hs \<noteq> 0"
    by (simp_all add: keyed_table_def)
  from iterate_all_from_new[OF table_chains[OF t] nz'] obtain it where
    it: "HashSetIteratorNew hs = Inr it"
      "iterate_all hs h it [] =
         Some (Inr (map snd (concat bs), \<lparr>bucket = count hs, element_it = None\<rparr>))"
    by blast
  from HashSetAdd_all_Get[OF table_HashSetNew nz assms(2), of es] r(1)
  have get: "HashSetGet hs h p =
      (if key p \<in> key ` set es
       then Some (Inr (Some (last (filter (\<lambda>y. key y = key p) es))))
       else Some (Inr None))" for p
    by (auto simp: HashSetGet_HashSetNew[OF assms(1)])
  have mem: "(x \<in> set (map snd (concat bs))) =
      (key x \<in> key ` set es \<and> last (filter (\<lambda>y. key y = key x) es) = x)" for x
    using keyed_table_stored_iff[OF r(2), of x] get[of x] by auto
  have "set (map snd (concat bs)) = (\<lambda>k. last (filter (\<lambda>y. key y = k) es)) ` key ` set es"
  proof (intro set_eqI iffI)
    fix x assume "x \<in> set (map snd (concat bs))"
    then have "key x \<in> key ` set es" "last (filter (\<lambda>y. key y = key x) es) = x"
      by (simp_all only: mem)
    then have "x = (\<lambda>k. last (filter (\<lambda>y. key y = k) es)) (key x)" "key x \<in> key ` set es"
      by simp_all
    then show "x \<in> (\<lambda>k. last (filter (\<lambda>y. key y = k) es)) ` key ` set es"
      by (rule image_eqI)
  next
    fix x assume "x \<in> (\<lambda>k. last (filter (\<lambda>y. key y = k) es)) ` key ` set es"
    then obtain y where y: "y \<in> set es" "x = last (filter (\<lambda>z. key z = key y) es)"
      by auto
    from y(1) have ne: "filter (\<lambda>z. key z = key y) es \<noteq> []"
      by (auto simp: filter_empty_conv)
    from last_in_set[OF ne] y(2) have "key x = key y" "x \<in> set es"
      by auto
    with y show "x \<in> set (map snd (concat bs))"
      by (simp only: mem) auto
  qed
  with r(1) it keyed_table_distinct[OF r(2)]
    distinct_keys_length[of key "map snd (concat bs)" es] show ?thesis
    by blast
qed

theorem HashSetAdd_unique_keys_witness:
  "\<exists>hs h it xs it'.
     HashSetAdd_all (HashSetNew 2 ItemHash ItemCompare) []
       [\<lparr>index = 1, word = ''hello''\<rparr>, \<lparr>index = 273, word = ''world''\<rparr>,
        \<lparr>index = 1, word = ''HELLO''\<rparr>] = Some (Inr (hs, h)) \<and>
     HashSetIteratorNew hs = Inr it \<and>
     iterate_all hs h it [] = Some (Inr (xs, it')) \<and>
     distinct (map index xs) \<and>
     set xs = {\<lparr>index = 1, word = ''HELLO''\<rparr>, \<lparr>index = 273, word = ''world''\<rparr>} \<and>
     length xs = 2"
proof -
  have k: "keyed index (HashSetNew 2 ItemHash ItemCompare)"
    by (auto simp: keyed_def HashSetNew_def ItemCompare_def ItemHash_def)
  have n: "(2::size_t) \<noteq> 0" by simp
  have two: "card {1, 273 :: size_t} = 2" by simp
  from HashSetAdd_unique_keys[OF n k,
      of "[\<lparr>index = 1, word = ''hello''\<rparr>, \<lparr>index = 273, word = ''world''\<rparr>,
           \<lparr>index = 1, word = ''HELLO''\<rparr>]"]
  show ?thesis
    by (simp add: insert_commute two)
qed

text \<open>
  Claim C2. On a table with at least one bucket and callbacks that read the key, after
  \<^verbatim>\<open>HashSetAdd\<close> of \<open>e\<close>, followed by any further \<^verbatim>\<open>HashSetAdd\<close> calls \<open>rest\<close>, a
  \<^verbatim>\<open>HashSetGet\<close> with a probe that compares equal to \<open>e\<close> returns the element reference
  stored last under that key: \<open>e\<close> itself, or the latest element of \<open>rest\<close> that compares
  equal to the probe. The value part read through the result is that element's.
  \<^verbatim>\<open>HashSetContains\<close> returns true.
\<close>

theorem HashSetGet_after_HashSetAdd_roundtrip:
  assumes "table hs h bs" and "count hs \<noteq> 0" and "keyed key hs"
    and "comparator hs e probe = 0"
  shows "\<exists>hs' h'. HashSetAdd_all hs h (e # rest) = Some (Inr (hs', h')) \<and>
           HashSetGet hs' h' probe =
             Some (Inr (Some (last (filter (\<lambda>y. comparator hs y probe = 0) (e # rest))))) \<and>
           HashSetContains hs' h' probe = Some (Inr True)"
proof -
  from assms(3,4) have ke: "key e = key probe"
    by (simp add: keyed_cmp)
  then have "key probe \<in> key ` set (e # rest)"
    by (metis image_eqI list.set_intros(1))
  with HashSetAdd_all_Get[OF assms(1-3), of "e # rest"] obtain hs' h' where
    r: "HashSetAdd_all hs h (e # rest) = Some (Inr (hs', h'))"
      "HashSetGet hs' h' probe =
         Some (Inr (Some (last (filter (\<lambda>y. key y = key probe) (e # rest)))))"
    by auto
  have "(\<lambda>y. key y = key probe) = (\<lambda>y. comparator hs y probe = 0)"
    using assms(3) by (simp add: keyed_cmp)
  with r show ?thesis
    by (intro exI[of _ hs'] exI[of _ h']) (simp add: HashSetContains_def)
qed

theorem HashSetGet_after_HashSetAdd_roundtrip_witness:
  "\<exists>hs' h'. HashSetAdd_all example_set example_heap
       [\<lparr>index = 1, word = ''Hello''\<rparr>, \<lparr>index = 5, word = ''five''\<rparr>,
        \<lparr>index = 1, word = ''HELLO''\<rparr>] = Some (Inr (hs', h')) \<and>
     HashSetGet hs' h' \<lparr>index = 1, word = []\<rparr> = Some (Inr (Some \<lparr>index = 1, word = ''HELLO''\<rparr>)) \<and>
     HashSetContains hs' h' \<lparr>index = 1, word = []\<rparr> = Some (Inr True)"
proof -
  have c: "comparator example_set \<lparr>index = 1, word = ''Hello''\<rparr> \<lparr>index = 1, word = []\<rparr> = 0"
    by (simp add: example_set_def ItemCompare_def)
  from HashSetGet_after_HashSetAdd_roundtrip[OF example_table example_count example_keyed c,
      of "[\<lparr>index = 5, word = ''five''\<rparr>, \<lparr>index = 1, word = ''HELLO''\<rparr>]"]
  show ?thesis
    by (simp add: example_set_def ItemCompare_def)
qed

text \<open>
  Claim C3. On a table built by the operations with callbacks that read the key (every
  element in the bucket of its hash, no key twice), after \<^verbatim>\<open>HashSetRemove\<close> with the probe
  \<open>e\<close>, \<^verbatim>\<open>HashSetContains\<close> with any probe that compares equal to \<open>e\<close> returns false, and a
  full iteration yields no element with that key.
\<close>

theorem HashSetRemove_complete:
  assumes "keyed_table key hs h bs" and "comparator hs e probe = 0"
  shows "\<exists>hs' h' it xs it'.
           HashSetRemove hs h e = Some (Inr (hs', h')) \<and>
           HashSetContains hs' h' probe = Some (Inr False) \<and>
           HashSetIteratorNew hs' = Inr it \<and>
           iterate_all hs' h' it [] = Some (Inr (xs, it')) \<and>
           key e \<notin> key ` set xs \<and> key probe \<notin> key ` set xs"
proof -
  from assms(1) have nz: "count hs \<noteq> 0" and k: "keyed key hs" and t: "table hs h bs"
    and p: "placed hs bs" and u: "unique_keys key bs"
    by (simp_all add: keyed_table_def)
  let ?i = "bucket_of hs e"
  let ?cs = "remove_chain (comparator hs) e (bs ! ?i)"
  from k assms(2) have ke: "key probe = key e"
    by (simp add: keyed_cmp)
  note b = chains_bucket[OF table_chains[OF t] nz, of e]
  from HashSetRemove_keyed_table[OF assms(1) refl, of e] obtain q h' where
    r: "HashSetRemove hs h e = Some (Inr (hs\<lparr>elements := (elements hs)[?i := q]\<rparr>, h'))"
      "keyed_table key (hs\<lparr>elements := (elements hs)[?i := q]\<rparr>) h' (bs[?i := ?cs])"
    by blast
  let ?hs' = "hs\<lparr>elements := (elements hs)[?i := q]\<rparr>"
  let ?bs' = "bs[?i := ?cs]"
  from r(2) have t': "table ?hs' h' ?bs'" and nz': "count ?hs' \<noteq> 0"
    by (simp_all add: keyed_table_def)
  have gone: "key e \<noteq> key (snd c)" if "c \<in> set (concat ?bs')" for c
  proof -
    from that obtain j where j: "j < length ?bs'" "c \<in> set (?bs' ! j)"
      unfolding in_concat_nth by blast
    show ?thesis
    proof (cases "j = ?i")
      case True
      with j have "c \<in> set ?cs" by simp
      with remove_chain_key_gone[where key = key and cmp = "comparator hs" and e = e
          and cs = "bs ! ?i", OF keyed_cmp[OF k] unique_keys_nth[OF u b(2)]]
      show ?thesis by (metis (mono_tags, lifting) image_eqI)
    next
      case False
      with j have "c \<in> set (bs ! j)" "j < length bs" by simp_all
      with placed_nth[OF p this(2,1)] False keyed_bucket[OF k, of e "snd c"] show ?thesis
        by auto
    qed
  qed
  then have nokey: "key e \<notin> key ` set (map snd (concat ?bs'))"
    by auto
  have "HashSetGet ?hs' h' probe = Some (Inr None)"
  proof -
    have get: "HashSetGet ?hs' h' probe =
        Some (Inr (find (\<lambda>y. key y = key probe) (map snd (?bs' ! bucket_of hs probe))))"
      using HashSetGet_chains[OF table_chains[OF t'] nz', of probe] by (simp add: keyed_cmp[OF k])
    have "find (\<lambda>y. key y = key probe) (map snd (?bs' ! bucket_of hs probe)) = None"
    proof (rule ccontr)
      assume "find (\<lambda>y. key y = key probe) (map snd (?bs' ! bucket_of hs probe)) \<noteq> None"
      then obtain y where "find (\<lambda>y. key y = key probe) (map snd (?bs' ! bucket_of hs probe)) = Some y"
        by auto
      then have y: "key y = key probe" "y \<in> set (map snd (?bs' ! bucket_of hs probe))"
        by (auto simp: find_Some_iff)
      from keyed_bucket[OF k ke] b(2) have "bucket_of hs probe < length ?bs'"
        by simp
      with y(2) have "y \<in> set (map snd (concat ?bs'))"
        unfolding set_map in_concat_nth image_iff by (metis in_concat_nth)
      with nokey y(1) ke show False by (metis image_eqI)
    qed
    with get show ?thesis by simp
  qed
  then have "HashSetContains ?hs' h' probe = Some (Inr False)"
    by (simp add: HashSetContains_def)
  moreover from iterate_all_from_new[OF table_chains[OF t'] nz'] obtain it where
    "HashSetIteratorNew ?hs' = Inr it"
    "iterate_all ?hs' h' it [] =
       Some (Inr (map snd (concat ?bs'), \<lparr>bucket = count ?hs', element_it = None\<rparr>))"
    by blast
  ultimately show ?thesis
    using r(1) nokey ke by auto
qed

theorem HashSetRemove_complete_witness:
  "\<exists>hs' h' it xs it'.
     HashSetRemove example_set example_heap \<lparr>index = 273, word = []\<rparr> = Some (Inr (hs', h')) \<and>
     HashSetContains hs' h' \<lparr>index = 273, word = ''probe''\<rparr> = Some (Inr False) \<and>
     HashSetIteratorNew hs' = Inr it \<and>
     iterate_all hs' h' it [] = Some (Inr (xs, it')) \<and>
     273 \<notin> index ` set xs"
proof -
  have c: "comparator example_set \<lparr>index = 273, word = []\<rparr> \<lparr>index = 273, word = ''probe''\<rparr> = 0"
    by (simp add: example_set_def ItemCompare_def)
  from HashSetRemove_complete[OF example_keyed_table c] show ?thesis
    by auto
qed

text \<open>
  Claim C4. When the chain of the computed bucket holds an element that compares equal to
  the new one, \<^verbatim>\<open>HashSetAdd\<close> stores the new element reference in the first such node
  (position \<open>k\<close>): the bucket array is unchanged, no cell is allocated (the store has the
  same size and the same allocated cells), every \<^verbatim>\<open>next\<close> field is unchanged, and the chains
  are the same lists of nodes, with the element at position \<open>k\<close> of bucket \<open>i\<close> replaced.
\<close>

theorem HashSetAdd_replaces_match:
  assumes "table hs h bs" and "count hs \<noteq> 0"
    and "i = bucket_of hs e" and "k = first_match (comparator hs) e (bs ! i)"
    and "\<exists>c\<in>set (bs ! i). comparator hs (snd c) e = 0"
  shows "k < length (bs ! i) \<and> comparator hs (snd (bs ! i ! k)) e = 0 \<and>
         (\<exists>h'. HashSetAdd hs h e = Some (Inr (hs, h')) \<and>
            length h' = length h \<and>
            (\<forall>a. load h' a =
                 (if a = fst (bs ! i ! k) then map_option (\<lambda>n. n\<lparr>element := e\<rparr>) (load h a)
                  else load h a)) \<and>
            table hs h' (bs[i := (bs ! i)[k := (fst (bs ! i ! k), e)]]))"
proof -
  let ?cmp = "comparator hs"
  have ch: "bucket_chains hs h bs" using assms(1) by (rule table_chains)
  note b = chains_bucket[OF ch assms(2), of e, folded assms(3)]
  have k: "k < length (bs ! i)"
    using assms(5) nomatch_iff[of ?cmp e "bs ! i"] by (auto simp: assms(4))
  from HashSetAdd_loop_match[OF b(3) k[unfolded assms(4)]] obtain n where
    n: "load h (fst (bs ! i ! k)) = Some n"
      "HashSetAdd_loop ?cmp e h (elements hs ! i) =
         Some (Inr (store h (fst (bs ! i ! k)) (n\<lparr>element := e\<rparr>)))"
    unfolding assms(4) by blast
  let ?h' = "store h (fst (bs ! i ! k)) (n\<lparr>element := e\<rparr>)"
  from k b(3) obtain a where head: "elements hs ! i = Some a"
    by (cases "bs ! i") (auto simp: chain_def)
  have run: "HashSetAdd hs h e = Some (Inr (hs, ?h'))"
    using b(1) assms(2) head n(2)
    by (simp add: HashSetAdd_def Let_def bucket_of_def[symmetric] assms(3)[symmetric])
  from HashSetAdd_table[OF assms(1,2,3)] obtain q h'' where
    "HashSetAdd hs h e = Some (Inr (hs\<lparr>elements := (elements hs)[i := q]\<rparr>, h''))"
    "table (hs\<lparr>elements := (elements hs)[i := q]\<rparr>) h''
       (bs[i := add_chain ?cmp e (length h) (bs ! i)])"
    by blast
  with run have "table hs ?h' (bs[i := add_chain ?cmp e (length h) (bs ! i)])"
    by simp
  with k have tab: "table hs ?h' (bs[i := (bs ! i)[k := (fst (bs ! i ! k), e)]])"
    by (simp add: add_chain_eq assms(4))
  have cells: "\<forall>a. load ?h' a =
      (if a = fst (bs ! i ! k) then map_option (\<lambda>n. n\<lparr>element := e\<rparr>) (load h a) else load h a)"
    using n(1) by (auto simp: load_store dest: load_Some_less)
  from k have "?cmp (snd (bs ! i ! k)) e = 0"
    unfolding assms(4) by (rule first_match_hit)
  with k run tab cells show ?thesis
    by (intro conjI exI[of _ ?h']) simp_all
qed

theorem HashSetAdd_replaces_match_witness:
  "\<exists>h'. HashSetAdd example_set example_heap \<lparr>index = 1, word = ''HELLO''\<rparr> = Some (Inr (example_set, h')) \<and>
      length h' = length example_heap \<and>
      table example_set h' (example_chains[1 := (example_chains ! 1)[0 := (0, \<lparr>index = 1, word = ''HELLO''\<rparr>)]])"
proof -
  have m: "\<exists>c\<in>set (example_chains ! 1).
      comparator example_set (snd c) \<lparr>index = 1, word = ''HELLO''\<rparr> = 0"
    by (simp add: example_chains_def example_set_def ItemCompare_def)
  have k: "0 = first_match (comparator example_set) \<lparr>index = 1, word = ''HELLO''\<rparr> (example_chains ! 1)"
    by (simp add: example_chains_def example_set_def ItemCompare_def)
  from HashSetAdd_replaces_match[OF example_table example_count example_bucket[symmetric] k m]
  show ?thesis
    by (auto simp: example_chains_def)
qed

text \<open>
  Claim C5. When no element of the chain of the computed bucket compares equal to the new
  one, \<^verbatim>\<open>HashSetAdd\<close> allocates one node (at the fresh address \<open>length h\<close>) holding the
  element, with no successor, and links it after the last node of that chain; the node is
  the head of the bucket if the chain was empty. Every node that was in a chain is at the
  same place of the same chain, with the same element.
\<close>

theorem HashSetAdd_appends_new:
  assumes "table hs h bs" and "count hs \<noteq> 0"
    and "i = bucket_of hs e"
    and "\<forall>c\<in>set (bs ! i). comparator hs (snd c) e \<noteq> 0"
  shows "\<exists>q h'. HashSetAdd hs h e = Some (Inr (hs\<lparr>elements := (elements hs)[i := q]\<rparr>, h')) \<and>
           q = (if bs ! i = [] then Some (length h) else elements hs ! i) \<and>
           length h' = Suc (length h) \<and>
           load h (length h) = None \<and>
           load h' (length h) = Some \<lparr>element = e, nxt = None\<rparr> \<and>
           table (hs\<lparr>elements := (elements hs)[i := q]\<rparr>) h' (bs[i := bs ! i @ [(length h, e)]])"
proof -
  let ?cmp = "comparator hs"
  have ch: "bucket_chains hs h bs" using assms(1) by (rule table_chains)
  note b = chains_bucket[OF ch assms(2), of e, folded assms(3)]
  from assms(4) have nm: "\<not> first_match ?cmp e (bs ! i) < length (bs ! i)"
    by (simp add: nomatch_iff)
  from HashSetAdd_table[OF assms(1,2,3)] obtain q h' where
    r: "HashSetAdd hs h e = Some (Inr (hs\<lparr>elements := (elements hs)[i := q]\<rparr>, h'))"
      "table (hs\<lparr>elements := (elements hs)[i := q]\<rparr>) h'
         (bs[i := add_chain ?cmp e (length h) (bs ! i)])"
      "length h' = (if first_match ?cmp e (bs ! i) < length (bs ! i) then length h else Suc (length h))"
      "q = (if bs ! i = [] then Some (length h) else elements hs ! i)"
    by blast
  from r(2) nm have tab: "table (hs\<lparr>elements := (elements hs)[i := q]\<rparr>) h'
      (bs[i := bs ! i @ [(length h, e)]])"
    by (simp add: add_chain_eq)
  from chains_nth[OF table_chains[OF tab], of i] b(2)
  have "chain h' q (bs ! i @ [(length h, e)])"
    using b(1) by simp
  then have "load h' (length h) = Some \<lparr>element = e, nxt = None\<rparr>"
    by (auto simp: chain_def path_append split: option.splits)
  with r(1,3,4) nm tab show ?thesis
    by (intro exI[of _ q] exI[of _ h']) (simp add: load_fresh)
qed

theorem HashSetAdd_appends_new_witness:
  "\<exists>q h'. HashSetAdd example_set example_heap \<lparr>index = 5, word = ''five''\<rparr> =
            Some (Inr (example_set\<lparr>elements := (elements example_set)[1 := q]\<rparr>, h')) \<and>
      q = elements example_set ! 1 \<and> length h' = Suc (length example_heap) \<and>
      load h' (length example_heap) = Some \<lparr>element = \<lparr>index = 5, word = ''five''\<rparr>, nxt = None\<rparr> \<and>
      table (example_set\<lparr>elements := (elements example_set)[1 := q]\<rparr>) h'
        (example_chains[1 := example_chains ! 1 @ [(length example_heap, \<lparr>index = 5, word = ''five''\<rparr>)]])"
proof -
  have i: "1 = bucket_of example_set \<lparr>index = 5, word = ''five''\<rparr>"
    by (simp add: bucket_of_def example_set_def ItemHash_def)
  have m: "\<forall>c\<in>set (example_chains ! 1).
      comparator example_set (snd c) \<lparr>index = 5, word = ''five''\<rparr> \<noteq> 0"
    by (simp add: example_chains_def example_set_def ItemCompare_def)
  have ne: "example_chains ! 1 \<noteq> []"
    by (simp add: example_chains_def)
  from HashSetAdd_appends_new[OF example_table example_count i m] ne
  show ?thesis
    by auto
qed

text \<open>
  Claim C6. On a table with at least one bucket, \<^verbatim>\<open>HashSetIteratorNew\<close> followed by
  \<^verbatim>\<open>HashSetIteratorNext\<close> until it returns \<^verbatim>\<open>NULL\<close> yields the elements of all nodes: bucket
  after bucket in ascending order, each chain from its head, every node once, so as many
  elements as there are nodes; with unique keys no key is yielded twice. The call after
  the last element returns \<^verbatim>\<open>NULL\<close> and leaves the iterator at bucket \<^verbatim>\<open>count\<close>; the first call
  returns \<^verbatim>\<open>NULL\<close> exactly when the table has no node.
\<close>

theorem iterate_all_complete:
  assumes "bucket_chains hs h bs" and "count hs \<noteq> 0"
  shows "\<exists>it xs. HashSetIteratorNew hs = Inr it \<and>
           iterate_all hs h it [] =
             Some (Inr (xs, \<lparr>bucket = count hs, element_it = None\<rparr>)) \<and>
           xs = map snd (concat bs) \<and> length xs = length (concat bs) \<and>
           (keyed_table key hs h bs \<longrightarrow> distinct (map key xs)) \<and>
           HashSetIteratorNext hs h \<lparr>bucket = count hs, element_it = None\<rparr> =
             Inr (None, \<lparr>bucket = count hs, element_it = None\<rparr>) \<and>
           (HashSetIteratorNext hs h it = Inr (None, \<lparr>bucket = count hs, element_it = None\<rparr>)) =
             (concat bs = [])"
proof -
  from HashSetIteratorNew_chains[OF assms] obtain it where
    it: "HashSetIteratorNew hs = Inr it" "iter_at hs h bs it (bs ! 0)"
      "remaining bs it (bs ! 0) = map snd (concat bs)"
    by blast
  have "iterate_all hs h it [] =
      Some (Inr (map snd (concat bs), \<lparr>bucket = count hs, element_it = None\<rparr>))"
    using iterate_all_remaining[OF it(2), of "[]"] it(3) by simp
  moreover have "HashSetIteratorNext hs h \<lparr>bucket = count hs, element_it = None\<rparr> =
      Inr (None, \<lparr>bucket = count hs, element_it = None\<rparr>)"
    by (rule HashSetIteratorNext_exhausted) simp
  moreover have "(HashSetIteratorNext hs h it = Inr (None, \<lparr>bucket = count hs, element_it = None\<rparr>)) =
      (concat bs = [])"
    using HashSetIteratorNext_step[OF it(2)] unfolding it(3)
    by (cases "concat bs") auto
  moreover have "keyed_table key hs h bs \<longrightarrow> distinct (map key (map snd (concat bs)))"
    using keyed_table_distinct by blast
  ultimately show ?thesis
    using it(1) by (intro exI[of _ it] exI[of _ "map snd (concat bs)"]) simp
qed

theorem iterate_all_complete_witness:
  "\<exists>it xs. HashSetIteratorNew example_set = Inr it \<and>
     iterate_all example_set example_heap it [] =
       Some (Inr (xs, \<lparr>bucket = 2, element_it = None\<rparr>)) \<and>
     xs = [\<lparr>index = 6000, word = ''wow''\<rparr>, \<lparr>index = 1, word = ''hello''\<rparr>,
           \<lparr>index = 273, word = ''world''\<rparr>] \<and>
     distinct (map index xs)"
  using iterate_all_complete[OF table_chains[OF example_table] example_count, of index]
    example_keyed_table
  by (auto simp: example_chains_def example_set_def)

text \<open>
  Claim C7. Once \<^verbatim>\<open>HashSetIteratorNext\<close> has returned \<^verbatim>\<open>NULL\<close>, leaving the iterator as \<open>i'\<close>,
  every later call on it returns \<^verbatim>\<open>NULL\<close> again and leaves it as it is, whatever the
  store holds by then: \<open>n\<close> calls in a row return \<open>n\<close> times \<^verbatim>\<open>NULL\<close>. The iterator does
  not go back to bucket 0; only \<^verbatim>\<open>HashSetIteratorNew\<close> gives such an iterator.
\<close>

theorem HashSetIteratorNext_end_stays:
  assumes "HashSetIteratorNext hs h i = Inr (None, i')"
  shows "HashSetIteratorNext hs h' i' = Inr (None, i') \<and>
         HashSetIteratorNext_times hs h' n i' = Inr (replicate n None, i')"
  using HashSetIteratorNext_end[OF assms]
  by (simp add: HashSetIteratorNext_exhausted HashSetIteratorNext_times_exhausted)

theorem HashSetIteratorNext_end_stays_witness:
  "HashSetIteratorNext_times example_set example_heap 3 \<lparr>bucket = 2, element_it = None\<rparr> =
     Inr ([None, None, None], \<lparr>bucket = 2, element_it = None\<rparr>)"
proof -
  have "HashSetIteratorNext example_set example_heap \<lparr>bucket = 1, element_it = None\<rparr> =
      Inr (None, \<lparr>bucket = 2, element_it = None\<rparr>)"
    by (simp add: HashSetIteratorNext.simps example_set_def)
  from HashSetIteratorNext_end_stays[OF this, of example_heap 3] show ?thesis
    by (simp add: numeral_3_eq_3)
qed

text \<open>
  Claim C8. When no element of the chain of the probe's bucket compares equal to the
  probe, \<^verbatim>\<open>HashSetRemove\<close> returns (it is no error) and neither the table (bucket count,
  bucket array, callbacks) nor the store of chain nodes has changed.
\<close>

theorem HashSetRemove_absent_noop:
  assumes "bucket_chains hs h bs" and "count hs \<noteq> 0"
    and "\<forall>c\<in>set (bs ! bucket_of hs e). comparator hs (snd c) e \<noteq> 0"
  shows "HashSetRemove hs h e = Some (Inr (hs, h))"
  using assms by (rule HashSetRemove_chains_nomatch)

theorem HashSetRemove_absent_noop_witness:
  "HashSetRemove example_set example_heap \<lparr>index = 7, word = []\<rparr> =
     Some (Inr (example_set, example_heap))"
proof -
  have m: "\<forall>c\<in>set (example_chains ! bucket_of example_set \<lparr>index = 7, word = []\<rparr>).
      comparator example_set (snd c) \<lparr>index = 7, word = []\<rparr> \<noteq> 0"
    by (simp add: bucket_of_def example_chains_def example_set_def ItemHash_def ItemCompare_def)
  show ?thesis
    using table_chains[OF example_table] example_count m by (rule HashSetRemove_absent_noop)
qed

text \<open>
  Claim C9. On a table with at least one bucket whose chains are finite (each ends in
  \<^verbatim>\<open>NULL\<close>, hence has no cycle), every operation returns, without a fault:
  \<^verbatim>\<open>HashSetGet\<close> and \<^verbatim>\<open>HashSetContains\<close> with the result of a search of the one chain of the
  computed bucket, \<^verbatim>\<open>HashSetAdd\<close>, \<^verbatim>\<open>HashSetRemove\<close>, each \<^verbatim>\<open>HashSetIteratorNext\<close> call
  on an iterator whose cursor heads a finite chain, and the full iteration. The operations
  are functions of the table, the store and the element: the walk is deterministic.
\<close>

theorem operations_terminate:
  assumes "bucket_chains hs h bs" and "count hs \<noteq> 0" and "chain h (element_it i) cs"
  shows "HashSetGet hs h e =
           Some (Inr (find (\<lambda>x. comparator hs x e = 0) (map snd (bs ! bucket_of hs e)))) \<and>
         HashSetContains hs h e =
           Some (Inr (\<exists>c\<in>set (bs ! bucket_of hs e). comparator hs (snd c) e = 0)) \<and>
         (\<exists>r. HashSetAdd hs h e = Some (Inr r)) \<and>
         (\<exists>r. HashSetRemove hs h e = Some (Inr r)) \<and>
         (\<exists>r. HashSetIteratorNext hs h i = Inr r) \<and>
         (\<exists>it r. HashSetIteratorNew hs = Inr it \<and> iterate_all hs h it [] = Some (Inr r))"
proof -
  have get: "HashSetGet hs h e =
      Some (Inr (find (\<lambda>x. comparator hs x e = 0) (map snd (bs ! bucket_of hs e))))"
    using assms(1,2) by (rule HashSetGet_chains)
  then have "HashSetContains hs h e =
      Some (Inr (\<exists>c\<in>set (bs ! bucket_of hs e). comparator hs (snd c) e = 0))"
    by (auto simp: HashSetContains_def find_None_iff)
  moreover have "\<exists>r. HashSetIteratorNext hs h i = Inr r"
  proof (cases "bucket i < count hs")
    case False
    then show ?thesis by (simp add: HashSetIteratorNext_exhausted)
  next
    case True
    then have "unat (bucket i) < length bs"
      using assms(1) chains_length[OF assms(1)] by (simp add: bucket_chains_def word_less_nat_alt)
    with assms(1,3) have "iter_at hs h bs i cs"
      by (simp add: iter_at_def)
    from HashSetIteratorNext_step[OF this] show ?thesis
      by (cases "remaining bs i cs") auto
  qed
  moreover have "\<exists>it r. HashSetIteratorNew hs = Inr it \<and> iterate_all hs h it [] = Some (Inr r)"
    using iterate_all_from_new[OF assms(1,2)] by blast
  ultimately show ?thesis
    using get HashSetAdd_returns[OF assms(1,2), of e] HashSetRemove_returns[OF assms(1,2), of e]
    by blast
qed

theorem operations_terminate_witness:
  "HashSetGet example_set example_heap \<lparr>index = 273, word = []\<rparr> =
     Some (Inr (Some \<lparr>index = 273, word = ''world''\<rparr>)) \<and>
   HashSetContains example_set example_heap \<lparr>index = 273, word = []\<rparr> = Some (Inr True) \<and>
   (\<exists>r. HashSetAdd example_set example_heap \<lparr>index = 273, word = []\<rparr> = Some (Inr r)) \<and>
   (\<exists>r. HashSetRemove example_set example_heap \<lparr>index = 273, word = []\<rparr> = Some (Inr r)) \<and>
   (\<exists>r. HashSetIteratorNext example_set example_heap \<lparr>bucket = 1, element_it = Some 1\<rparr> = Inr r) \<and>
   (\<exists>it r. HashSetIteratorNew example_set = Inr it \<and>
      iterate_all example_set example_heap it [] = Some (Inr r))"
proof -
  have c: "chain example_heap (element_it \<lparr>bucket = 1, element_it = Some 1\<rparr>)
      [(1, \<lparr>index = 273, word = ''world''\<rparr>)]"
    by (simp add: chain_def load_def example_heap_def)
  have b: "bucket_of example_set \<lparr>index = 273, word = []\<rparr> = 1"
    by (simp add: bucket_of_def example_set_def ItemHash_def)
  from operations_terminate[OF table_chains[OF example_table] example_count c,
      of "\<lparr>index = 273, word = []\<rparr>"]
  show ?thesis
    unfolding b by (simp add: example_chains_def example_set_def ItemCompare_def)
qed

text \<open>
  Claim C10. On a table with at least one bucket, \<^verbatim>\<open>HashSetAdd\<close> and \<^verbatim>\<open>HashSetRemove\<close>
  return and change at most the bucket at index \<^verbatim>\<open>hasher(element) % count\<close>: the bucket
  count, the hasher, the comparator, the head of every other bucket, its chain and the
  cells of the nodes of that chain are as before.
\<close>

theorem HashSetAdd_HashSetRemove_frame:
  assumes "table hs h bs" and "count hs \<noteq> 0"
  shows "(\<exists>hs' h'. HashSetAdd hs h e = Some (Inr (hs', h')) \<and>
            same_outside (bucket_of hs e) hs h bs hs' h') \<and>
         (\<exists>hs' h'. HashSetRemove hs h e = Some (Inr (hs', h')) \<and>
            same_outside (bucket_of hs e) hs h bs hs' h')"
proof
  note b = chains_bucket[OF table_chains[OF assms(1)] assms(2), of e]
  from HashSetAdd_table[OF assms refl, of e] obtain q h' where
    a: "HashSetAdd hs h e = Some (Inr (hs\<lparr>elements := (elements hs)[bucket_of hs e := q]\<rparr>, h'))"
      "\<forall>a. a \<notin> fst ` set (bs ! bucket_of hs e) \<longrightarrow> a < length h \<longrightarrow> load h' a = load h a"
    by blast
  from HashSetAdd_same_outside[OF assms a(2) b(2)] a(1)
  show "\<exists>hs' h'. HashSetAdd hs h e = Some (Inr (hs', h')) \<and>
            same_outside (bucket_of hs e) hs h bs hs' h'"
    by blast
  from HashSetRemove_table[OF assms refl, of e] obtain q h' where
    r: "HashSetRemove hs h e = Some (Inr (hs\<lparr>elements := (elements hs)[bucket_of hs e := q]\<rparr>, h'))"
      "\<forall>a. a \<notin> fst ` set (bs ! bucket_of hs e) \<longrightarrow> load h' a = load h a"
    by blast
  from r(2) have "\<forall>a. a \<notin> fst ` set (bs ! bucket_of hs e) \<longrightarrow> a < length h \<longrightarrow> load h' a = load h a"
    by simp
  from HashSetAdd_same_outside[OF assms this b(2)] r(1)
  show "\<exists>hs' h'. HashSetRemove hs h e = Some (Inr (hs', h')) \<and>
            same_outside (bucket_of hs e) hs h bs hs' h'"
    by blast
qed

theorem HashSetAdd_HashSetRemove_frame_witness:
  "(\<exists>hs' h'. HashSetAdd example_set example_heap \<lparr>index = 1, word = ''HELLO''\<rparr> = Some (Inr (hs', h')) \<and>
      same_outside 1 example_set example_heap example_chains hs' h') \<and>
   (\<exists>hs' h'. HashSetRemove example_set example_heap \<lparr>index = 1, word = ''HELLO''\<rparr> = Some (Inr (hs', h')) \<and>
      same_outside 1 example_set example_heap example_chains hs' h')"
  using HashSetAdd_HashSetRemove_frame[OF example_table example_count, of "\<lparr>index = 1, word = ''HELLO''\<rparr>"]
  by (simp add: example_bucket)

end
